theory Spec2Isabelle
  imports Main "HOL-Library.Char_ord"
begin

section \<open>Strings and characters as Python sees them\<close>

text \<open>
  A Python \<open>str\<close> is modelled as a \<open>string\<close> whose characters are the code points
  0..255 (Latin-1); every literal of the program lies in that range.
\<close>

definition code :: "char \<Rightarrow> nat" where
  "code c = of_char c"

definition is_space :: "char \<Rightarrow> bool" where
  \<comment> \<open>\<open>str.isspace\<close> and the class \<open>\\s\<close> on the code points below 256\<close>
  "is_space c = (code c \<in> {9, 10, 11, 12, 13, 28, 29, 30, 31, 32, 133, 160})"

definition lower_char :: "char \<Rightarrow> char" where
  \<comment> \<open>\<open>str.lower\<close> on one code point below 256\<close>
  "lower_char c =
     (if (65 \<le> code c \<and> code c \<le> 90) \<or> (192 \<le> code c \<and> code c \<le> 222 \<and> code c \<noteq> 215)
      then char_of (code c + 32) else c)"

definition lower :: "string \<Rightarrow> string" where
  "lower s = map lower_char s"

definition strip :: "string \<Rightarrow> string" where
  "strip s = rev (dropWhile is_space (rev (dropWhile is_space s)))"

definition endswith :: "string \<Rightarrow> string \<Rightarrow> bool" where
  "endswith s suf = (length suf \<le> length s \<and> drop (length s - length suf) s = suf)"

section \<open>Training samples and the sample store\<close>

text \<open>
  A sample is the dictionary decoded from one JSON file. A field that the dictionary
  lacks is \<open>None\<close>: \<open>sample['k']\<close> raises \<open>KeyError\<close> there and
  \<open>sample.get('k', d)\<close> gives \<open>d\<close>.
\<close>

record sample =
  id_of :: "string option"
  timestamp :: "int option"
  ocr_text :: "string option"
  corrected_text :: "string option"
  image_path :: "string option"

datatype py_error =
    KeyError string
  | JSONDecodeError
  | EOFError
  | FileNotFoundError
  | CalledProcessError
  | ValueError

text \<open>
  A file of the training directory is either a decodable sample, or empty (what
  \<open>open(path, 'w')\<close> leaves before anything is written), or an image.
\<close>

datatype file_content = Json sample | Truncated | Image

type_synonym store = "string \<rightharpoonup> file_content"

subsection \<open>train.py\<close>

text \<open>A loaded sample is the decoded dictionary together with its \<open>json_path\<close>.\<close>

type_synonym loaded = "string \<times> sample"

fun load_one :: "store \<Rightarrow> string \<Rightarrow> py_error + loaded" where
  "load_one st path =
     (case st path of
        None \<Rightarrow> Inl FileNotFoundError
      | Some (Json s) \<Rightarrow> Inr (path, s)
      | Some _ \<Rightarrow> Inl JSONDecodeError)"

fun load_all :: "store \<Rightarrow> string list \<Rightarrow> py_error + loaded list" where
  "load_all st [] = Inr []"
| "load_all st (p # ps) =
     (if endswith p ''.json'' then
        (case load_one st p of
           Inl e \<Rightarrow> Inl e
         | Inr l \<Rightarrow> (case load_all st ps of Inl e \<Rightarrow> Inl e | Inr ls \<Rightarrow> Inr (l # ls)))
      else load_all st ps)"

fun timestamps :: "loaded list \<Rightarrow> py_error + unit" where
  "timestamps [] = Inr ()"
| "timestamps ((p, s) # ls) =
     (case timestamp s of None \<Rightarrow> Inl (KeyError ''timestamp'') | Some _ \<Rightarrow> timestamps ls)"

definition load_samples :: "store \<Rightarrow> string list \<Rightarrow> py_error + loaded list" where
  \<comment> \<open>\<open>listing\<close> is what \<open>os.listdir\<close> returns; \<open>sorted\<close> is stable, as \<open>sort_key\<close> is\<close>
  "load_samples st listing =
     (case load_all st listing of
        Inl e \<Rightarrow> Inl e
      | Inr ls \<Rightarrow>
          (case timestamps ls of
             Inl e \<Rightarrow> Inl e
           | Inr _ \<Rightarrow> Inr (sort_key (\<lambda>l. the (timestamp (snd l))) ls)))"

text \<open>
  \<open>save_sample\<close> opens the file for writing, which empties it, and only then reads
  the five fields; a missing field leaves the file empty.
\<close>

definition save_sample :: "store \<Rightarrow> loaded \<Rightarrow> store \<times> py_error option" where
  "save_sample st l =
     (let path = fst l; s = snd l; st0 = st(path \<mapsto> Truncated) in
      case id_of s of None \<Rightarrow> (st0, Some (KeyError ''id'')) | Some i \<Rightarrow>
     (case timestamp s of None \<Rightarrow> (st0, Some (KeyError ''timestamp'')) | Some t \<Rightarrow>
     (case ocr_text s of None \<Rightarrow> (st0, Some (KeyError ''ocr_text'')) | Some ot \<Rightarrow>
     (case corrected_text s of None \<Rightarrow> (st0, Some (KeyError ''corrected_text'')) | Some ct \<Rightarrow>
     (case image_path s of None \<Rightarrow> (st0, Some (KeyError ''image_path'')) | Some ip \<Rightarrow>
        (st(path \<mapsto> Json \<lparr>id_of = Some i, timestamp = Some t, ocr_text = Some ot,
                             corrected_text = Some ct, image_path = Some ip\<rparr>), None))))))"

text \<open>
  The loop of \<open>main\<close> over the loaded samples. \<open>inputs\<close> are the lines that
  \<open>input()\<close> returns, one per prompt; running out of them is \<open>EOFError\<close>. The result
  is the store as the run leaves it and the exception that ended the run, if any.
\<close>

fun correct_loop :: "store \<Rightarrow> loaded list \<Rightarrow> string list \<Rightarrow> store \<times> py_error option" where
  "correct_loop st [] inputs = (st, None)"
| "correct_loop st ((path, s) # rest) inputs =
     (case id_of s of None \<Rightarrow> (st, Some (KeyError ''id'')) | Some _ \<Rightarrow>
     (case image_path s of None \<Rightarrow> (st, Some (KeyError ''image_path'')) | Some _ \<Rightarrow>
     (case ocr_text s of None \<Rightarrow> (st, Some (KeyError ''ocr_text'')) | Some ot \<Rightarrow>
     (let current_correction = (case corrected_text s of None \<Rightarrow> ot | Some ct \<Rightarrow> ct) in
     (case inputs of [] \<Rightarrow> (st, Some EOFError) | line # inputs' \<Rightarrow>
     (let choice = strip line in
      if lower choice = ''q'' then (st, None)
      else if lower choice = ''s'' then correct_loop st rest inputs'
      else if choice = [] then
        (case save_sample st (path, s\<lparr>corrected_text := Some current_correction\<rparr>) of
           (st', Some e) \<Rightarrow> (st', Some e)
         | (st', None) \<Rightarrow> correct_loop st' rest inputs')
      else
        (case save_sample st (path, s\<lparr>corrected_text := Some choice\<rparr>) of
           (st', Some e) \<Rightarrow> (st', Some e)
         | (st', None) \<Rightarrow> correct_loop st' rest inputs')))))))"

definition train_main :: "store \<Rightarrow> string list \<Rightarrow> string list \<Rightarrow> store \<times> py_error option" where
  "train_main st listing inputs =
     (case load_samples st listing of
        Inl e \<Rightarrow> (st, Some e)
      | Inr samples \<Rightarrow> correct_loop st samples inputs)"

text \<open>
  Two stored files agree outside \<open>corrected_text\<close>: either the file is untouched, or
  both hold a sample and the four other fields are equal.
\<close>

definition same_but_corrected :: "file_content option \<Rightarrow> file_content option \<Rightarrow> bool" where
  "same_but_corrected old new =
     (new = old \<or>
      (case (old, new) of
         (Some (Json s), Some (Json s')) \<Rightarrow>
            id_of s' = id_of s \<and> timestamp s' = timestamp s \<and>
            ocr_text s' = ocr_text s \<and> image_path s' = image_path s
       | _ \<Rightarrow> False))"

definition faithful :: "store \<Rightarrow> loaded list \<Rightarrow> bool" where
  \<comment> \<open>every loaded sample is what the store holds at its path\<close>
  "faithful st ls = (\<forall>(p, s) \<in> set ls. st p = Some (Json s))"

subsection \<open>pp6.py: the capture pipeline saves a training sample\<close>

definition digit_char :: "nat \<Rightarrow> char" where
  "digit_char d = char_of (48 + d)"

function digits_of :: "nat \<Rightarrow> string" where
  "digits_of n = (if n < 10 then [digit_char n] else digits_of (n div 10) @ [digit_char (n mod 10)])"
  by pat_completeness auto
termination
  by (relation "measure id") auto

declare digits_of.simps [simp del]

definition str_int :: "int \<Rightarrow> string" where
  \<comment> \<open>\<open>str(n)\<close>, which the f-string \<open>f"sample_{timestamp}"\<close> uses\<close>
  "str_int i = (if i < 0 then CHR ''-'' # digits_of (nat (- i)) else digits_of (nat i))"

definition TRAINING_DATA_DIR :: string where
  "TRAINING_DATA_DIR = ''/home/admin/pi/corrections/training_data''"

definition path_join :: "string \<Rightarrow> string \<Rightarrow> string" where
  \<comment> \<open>\<open>os.path.join\<close> of a directory that does not end in a slash and a relative name\<close>
  "path_join d f = d @ ''/'' @ f"

definition sample_id :: "int \<Rightarrow> string" where
  "sample_id ts = ''sample_'' @ str_int ts"

definition image_dest :: "int \<Rightarrow> string" where
  "image_dest ts = path_join TRAINING_DATA_DIR (sample_id ts @ ''.jpg'')"

definition metadata_path :: "int \<Rightarrow> string" where
  "metadata_path ts = path_join TRAINING_DATA_DIR (sample_id ts @ ''.json'')"

definition cp :: "store \<Rightarrow> string \<Rightarrow> string \<Rightarrow> py_error + store" where
  \<comment> \<open>\<open>subprocess.run(["cp", src, dst], check=True)\<close>: fails when the source is missing
      or is the destination itself\<close>
  "cp st src dst =
     (case st src of
        None \<Rightarrow> Inl CalledProcessError
      | Some c \<Rightarrow> if src = dst then Inl CalledProcessError else Inr (st(dst \<mapsto> c)))"

text \<open>
  \<open>now\<close> is what \<open>int(time.time())\<close> returns: the clock in whole seconds. The result
  is the store afterwards and the boolean the function returns.
\<close>

definition save_training_sample :: "store \<Rightarrow> int \<Rightarrow> string \<Rightarrow> string \<Rightarrow> store \<times> bool" where
  "save_training_sample st now img ocr =
     (let ts = now;
          sid = sample_id ts;
          dest = image_dest ts
      in case cp st img dest of
           Inl e \<Rightarrow> (st, False)
         | Inr st1 \<Rightarrow>
             (st1(metadata_path ts \<mapsto>
                Json \<lparr>id_of = Some sid, timestamp = Some ts, ocr_text = Some ocr,
                      corrected_text = Some ocr, image_path = Some dest\<rparr>), True))"

definition camera_only :: store where
  \<comment> \<open>a store that holds the camera's picture and nothing else\<close>
  "camera_only = Map.empty(''/tmp/image.jpg'' \<mapsto> Image)"

section \<open>Regular expressions as Python's \<open>re\<close> module matches them\<close>

text \<open>
  The program rewrites text with \<open>re.sub\<close> and tests it with \<open>re.search\<close>; the
  patterns are strings, some of them read from the persisted rule set. This section
  models the part of \<open>re\<close> (Python 3.11, no flags) that those calls need: the pattern
  parser with its errors, the backtracking matcher with greedy repeats and capture groups,
  replacement templates, and the left-to-right substitution loop. A pattern that uses a
  construct beyond this fragment (counted repeats, lazy or possessive repeats, look-around,
  back-references, named groups, numeric escapes, a repeat of something that can match the
  empty string) is reported as \<open>OutsideModel\<close>, so that no theorem says anything about it.

  A backslash cannot be written inside a string literal; it is the constant \<open>BS\<close>, and
  the raw string \<open>r'\\s+'\<close> is written \<open>BS # ''s+''\<close>.
\<close>

definition BS :: char where
  "BS = CHR 0x5C"

definition NL :: char where
  "NL = CHR 0x0A"

datatype re_error = Invalid string | OutsideModel

definition is_digit :: "char \<Rightarrow> bool" where
  "is_digit c = (48 \<le> code c \<and> code c \<le> 57)"

definition is_ascii_letter :: "char \<Rightarrow> bool" where
  "is_ascii_letter c = ((65 \<le> code c \<and> code c \<le> 90) \<or> (97 \<le> code c \<and> code c \<le> 122))"

definition is_word :: "char \<Rightarrow> bool" where
  \<comment> \<open>the class \<open>\\w\<close> on the code points below 256: alphanumeric or underscore\<close>
  "is_word c =
     (let n = code c in
      (48 \<le> n \<and> n \<le> 57) \<or> (65 \<le> n \<and> n \<le> 90) \<or> n = 95 \<or> (97 \<le> n \<and> n \<le> 122) \<or>
      n = 170 \<or> n = 178 \<or> n = 179 \<or> n = 181 \<or> n = 185 \<or> n = 186 \<or>
      (188 \<le> n \<and> n \<le> 190) \<or> (192 \<le> n \<and> n \<le> 214) \<or> (216 \<le> n \<and> n \<le> 246) \<or>
      (248 \<le> n \<and> n \<le> 255))"

datatype category = Digit | NotDigit | Space | NotSpace | Word | NotWord

fun in_category :: "category \<Rightarrow> char \<Rightarrow> bool" where
  "in_category Digit c = is_digit c"
| "in_category NotDigit c = (\<not> is_digit c)"
| "in_category Space c = is_space c"
| "in_category NotSpace c = (\<not> is_space c)"
| "in_category Word c = is_word c"
| "in_category NotWord c = (\<not> is_word c)"

datatype set_item = Single char | Range char char | Cat category

fun in_item :: "set_item \<Rightarrow> char \<Rightarrow> bool" where
  "in_item (Single a) c = (c = a)"
| "in_item (Range lo hi) c = (code lo \<le> code c \<and> code c \<le> code hi)"
| "in_item (Cat k) c = in_category k c"

datatype regex =
    Lit char
  | AnyChar
  | In bool "set_item list"
  | AtBoundary
  | AtNonBoundary
  | AtBeginning
  | AtEnd
  | AtEndString
  | Empty
  | Seq regex regex
  | Branch regex regex
  | Subpattern nat regex
  | Noncapturing regex
  | Star regex
  | Plus regex
  | Opt regex

subsection \<open>Parsing a pattern\<close>

text \<open>
  The tokenizer pairs a backslash with the character after it; a backslash that ends the
  pattern is the token \<open>TBad\<close>.
\<close>

datatype token = TChar char | TEsc char | TBad

fun tokenize :: "string \<Rightarrow> token list" where
  "tokenize [] = []"
| "tokenize [c] = (if c = BS then [TBad] else [TChar c])"
| "tokenize (c # d # cs) = (if c = BS then TEsc d # tokenize cs else TChar c # tokenize (d # cs))"

definition control_escape :: "char \<Rightarrow> char option" where
  \<comment> \<open>\<open>\\a \\b \\f \\n \\r \\t \\v \\\\\<close> as characters\<close>
  "control_escape c =
     (if c = CHR ''a'' then Some (CHR 0x07) else if c = CHR ''b'' then Some (CHR 0x08)
      else if c = CHR ''f'' then Some (CHR 0x0C) else if c = CHR ''n'' then Some (CHR 0x0A)
      else if c = CHR ''r'' then Some (CHR 0x0D) else if c = CHR ''t'' then Some (CHR 0x09)
      else if c = CHR ''v'' then Some (CHR 0x0B) else if c = BS then Some BS
      else None)"

definition category_escape :: "char \<Rightarrow> category option" where
  "category_escape c =
     (if c = CHR ''d'' then Some Digit else if c = CHR ''D'' then Some NotDigit
      else if c = CHR ''s'' then Some Space else if c = CHR ''S'' then Some NotSpace
      else if c = CHR ''w'' then Some Word else if c = CHR ''W'' then Some NotWord
      else None)"

definition numeric_escape :: "char \<Rightarrow> bool" where
  \<comment> \<open>escapes that read more characters: \<open>\\x \\u \\U \\N\<close> and the digits\<close>
  "numeric_escape c = (c = CHR ''x'' \<or> c = CHR ''u'' \<or> c = CHR ''U'' \<or> c = CHR ''N'' \<or> is_digit c)"

definition escape :: "char \<Rightarrow> re_error + regex" where
  \<comment> \<open>an escape outside a character set\<close>
  "escape c =
     (case category_escape c of Some k \<Rightarrow> Inr (In False [Cat k]) | None \<Rightarrow>
     (if c = CHR ''A'' then Inr AtBeginning
      else if c = CHR ''b'' then Inr AtBoundary
      else if c = CHR ''B'' then Inr AtNonBoundary
      else if c = CHR ''Z'' then Inr AtEndString
      else (case control_escape c of Some x \<Rightarrow> Inr (Lit x) | None \<Rightarrow>
     (if numeric_escape c then Inl OutsideModel
      else if is_ascii_letter c then Inl (Invalid ''bad escape'')
      else Inr (Lit c)))))"

definition class_escape :: "char \<Rightarrow> re_error + set_item" where
  \<comment> \<open>an escape inside a character set\<close>
  "class_escape c =
     (case control_escape c of Some x \<Rightarrow> Inr (Single x) | None \<Rightarrow>
     (case category_escape c of Some k \<Rightarrow> Inr (Cat k) | None \<Rightarrow>
     (if c = CHR ''8'' \<or> c = CHR ''9'' then Inl (Invalid ''bad escape'')
      else if numeric_escape c then Inl OutsideModel
      else if is_ascii_letter c then Inl (Invalid ''bad escape'')
      else Inr (Single c))))"

definition set_atom :: "token \<Rightarrow> re_error + set_item" where
  "set_atom t = (case t of TChar c \<Rightarrow> Inr (Single c) | TEsc c \<Rightarrow> class_escape c
                 | TBad \<Rightarrow> Inl (Invalid ''bad escape (end of pattern)''))"

definition make_range :: "set_item \<Rightarrow> set_item \<Rightarrow> re_error + set_item" where
  "make_range a b =
     (case (a, b) of
        (Single lo, Single hi) \<Rightarrow>
          if code hi < code lo then Inl (Invalid ''bad character range'') else Inr (Range lo hi)
      | _ \<Rightarrow> Inl (Invalid ''bad character range''))"

text \<open>
  The items of a character set, after the opening bracket and the optional \<open>^\<close>. The
  result is the items and the tokens after the closing bracket.
\<close>

fun parse_set :: "set_item list \<Rightarrow> token list \<Rightarrow> re_error + (set_item list \<times> token list)" where
  "parse_set acc [] = Inl (Invalid ''unterminated character set'')"
| "parse_set acc (t # ts) =
     (if t = TChar (CHR '']'') \<and> acc \<noteq> [] then Inr (rev acc, ts)
      else (case set_atom t of Inl e \<Rightarrow> Inl e | Inr a \<Rightarrow>
        (case ts of
           [] \<Rightarrow> Inl (Invalid ''unterminated character set'')
         | u # us \<Rightarrow>
             if u = TChar (CHR ''-'') then
               (case us of
                  [] \<Rightarrow> Inl (Invalid ''unterminated character set'')
                | v # vs \<Rightarrow>
                    if v = TChar (CHR '']'') then Inr (rev (Single (CHR ''-'') # a # acc), vs)
                    else (case set_atom v of Inl e \<Rightarrow> Inl e | Inr b \<Rightarrow>
                      (case make_range a b of Inl e \<Rightarrow> Inl e
                       | Inr r \<Rightarrow> parse_set (r # acc) vs)))
             else parse_set (a # acc) (u # us))))"

text \<open>
  A frame is a group being read: the alternatives completed so far, the items of the
  current alternative (both newest first), and the group's number when it captures.
\<close>

datatype frame = Frame "regex list" "regex list" "nat option"

fun seq_of :: "regex list \<Rightarrow> regex" where
  "seq_of [] = Empty"
| "seq_of [r] = r"
| "seq_of (r # rs) = Seq r (seq_of rs)"

fun branch_of :: "regex list \<Rightarrow> regex" where
  "branch_of [] = Empty"
| "branch_of [r] = r"
| "branch_of (r # rs) = Branch r (branch_of rs)"

fun close_frame :: "frame \<Rightarrow> regex" where
  "close_frame (Frame alts items g) =
     (let body = branch_of (rev (seq_of (rev items) # alts))
      in case g of None \<Rightarrow> Noncapturing body | Some n \<Rightarrow> Subpattern n body)"

fun push_item :: "regex \<Rightarrow> frame \<Rightarrow> frame" where
  "push_item r (Frame alts items g) = Frame alts (r # items) g"

fun next_alternative :: "frame \<Rightarrow> frame" where
  "next_alternative (Frame alts items g) = Frame (seq_of (rev items) # alts) [] g"

fun is_at :: "regex \<Rightarrow> bool" where
  "is_at AtBoundary = True"
| "is_at AtNonBoundary = True"
| "is_at AtBeginning = True"
| "is_at AtEnd = True"
| "is_at AtEndString = True"
| "is_at _ = False"

fun is_repeat :: "regex \<Rightarrow> bool" where
  "is_repeat (Star _) = True"
| "is_repeat (Plus _) = True"
| "is_repeat (Opt _) = True"
| "is_repeat _ = False"

fun nullable :: "regex \<Rightarrow> bool" where
  "nullable (Lit _) = False"
| "nullable AnyChar = False"
| "nullable (In _ _) = False"
| "nullable (Seq a b) = (nullable a \<and> nullable b)"
| "nullable (Branch a b) = (nullable a \<or> nullable b)"
| "nullable (Subpattern _ r) = nullable r"
| "nullable (Noncapturing r) = nullable r"
| "nullable (Plus r) = nullable r"
| "nullable _ = True"

definition quantifier :: "char \<Rightarrow> (regex \<Rightarrow> regex) option" where
  "quantifier c =
     (if c = CHR ''*'' then Some Star else if c = CHR ''+'' then Some Plus
      else if c = CHR ''?'' then Some Opt else None)"

definition repeat_item :: "(regex \<Rightarrow> regex) \<Rightarrow> frame \<Rightarrow> token list \<Rightarrow> re_error + frame" where
  \<comment> \<open>a quantifier applies to the last item read; \<open>ts\<close> are the tokens after it\<close>
  "repeat_item q f ts =
     (case f of Frame alts items g \<Rightarrow>
        (case items of
           [] \<Rightarrow> Inl (Invalid ''nothing to repeat'')
         | r # rs \<Rightarrow>
             if is_at r then Inl (Invalid ''nothing to repeat'')
             else if is_repeat r then Inl (Invalid ''multiple repeat'')
             else if (case ts of [] \<Rightarrow> False | t # _ \<Rightarrow> t = TChar (CHR ''?'') \<or> t = TChar (CHR ''+''))
               then Inl OutsideModel
             else if nullable r then Inl OutsideModel
             else Inr (Frame alts (q r # rs) g)))"

text \<open>
  The parser: \<open>cur\<close> is the innermost open group, \<open>stack\<close> the groups around it (the
  last one is the whole pattern), \<open>n\<close> the number of capturing groups opened so far.
  The tokens that \<open>parse_set\<close> leaves are always fewer than it was given (lemma
  \<open>parse_set_shorter\<close>), so the length test after it never fails; it is there for
  the termination proof.
\<close>

function parse :: "frame \<Rightarrow> frame list \<Rightarrow> nat \<Rightarrow> token list \<Rightarrow> re_error + (regex \<times> nat)" where
  "parse cur stack n [] =
     (if stack = [] then Inr (close_frame cur, n)
      else Inl (Invalid ''missing ), unterminated subpattern''))"
| "parse cur stack n (TBad # ts) = Inl (Invalid ''bad escape (end of pattern)'')"
| "parse cur stack n (TEsc c # ts) =
     (case escape c of Inl e \<Rightarrow> Inl e | Inr r \<Rightarrow> parse (push_item r cur) stack n ts)"
| "parse cur stack n (TChar c # ts) =
     (if c = CHR ''('' then
        (case ts of
           TChar q # ts' \<Rightarrow>
             if q = CHR ''?'' then
               (case ts' of
                  TChar k # ts'' \<Rightarrow>
                    if k = CHR '':'' then parse (Frame [] [] None) (cur # stack) n ts''
                    else Inl OutsideModel
                | _ \<Rightarrow> Inl OutsideModel)
             else parse (Frame [] [] (Some (Suc n))) (cur # stack) (Suc n) ts
         | _ \<Rightarrow> parse (Frame [] [] (Some (Suc n))) (cur # stack) (Suc n) ts)
      else if c = CHR '')'' then
        (case stack of
           [] \<Rightarrow> Inl (Invalid ''unbalanced parenthesis'')
         | parent # stack' \<Rightarrow> parse (push_item (close_frame cur) parent) stack' n ts)
      else if c = CHR ''|'' then parse (next_alternative cur) stack n ts
      else if c = CHR ''['' then
        (case (case ts of [] \<Rightarrow> (False, ts) | t # ts' \<Rightarrow> if t = TChar (CHR ''^'') then (True, ts') else (False, ts)) of
           (negate, ts1) \<Rightarrow>
             (case parse_set [] ts1 of
                Inl e \<Rightarrow> Inl e
              | Inr (items, rest) \<Rightarrow>
                  if length rest < Suc (length ts)
                  then parse (push_item (In negate items) cur) stack n rest
                  else Inl OutsideModel))
      else if c = CHR ''{'' then Inl OutsideModel
      else if c = CHR ''.'' then parse (push_item AnyChar cur) stack n ts
      else if c = CHR ''^'' then parse (push_item AtBeginning cur) stack n ts
      else if c = CHR ''$'' then parse (push_item AtEnd cur) stack n ts
      else case quantifier c of
             Some q \<Rightarrow>
               (case repeat_item q cur ts of Inl e \<Rightarrow> Inl e | Inr cur' \<Rightarrow> parse cur' stack n ts)
           | None \<Rightarrow> parse (push_item (Lit c) cur) stack n ts)"
  by pat_completeness auto
termination
  by (relation "measure (\<lambda>(cur, stack, n, ts). length ts)") auto

definition re_compile :: "string \<Rightarrow> re_error + (regex \<times> nat)" where
  \<comment> \<open>the parsed pattern and the number of its capturing groups\<close>
  "re_compile p = parse (Frame [] [] None) [] 0 (tokenize p)"

subsection \<open>Matching\<close>

text \<open>
  The matcher walks the text from left to right. A position is the character before it
  (\<open>None\<close> at the start of the text) and the text from it on. \<open>ms r prev rest cs\<close> is
  the list of all the ways \<open>r\<close> matches at that position, in the order in which a
  backtracking matcher tries them: each is the position after the match and the groups
  captured so far (newest first; group \<open>n\<close> is \<open>map_of cs n\<close>).
\<close>

type_synonym caps = "(nat \<times> string) list"

type_synonym outcome = "char option \<times> string \<times> caps"

definition word_before :: "char option \<Rightarrow> bool" where
  "word_before prev = (case prev of None \<Rightarrow> False | Some c \<Rightarrow> is_word c)"

definition word_here :: "string \<Rightarrow> bool" where
  "word_here rest = (case rest of [] \<Rightarrow> False | c # _ \<Rightarrow> is_word c)"

definition at_boundary :: "char option \<Rightarrow> string \<Rightarrow> bool" where
  "at_boundary prev rest = (word_before prev \<noteq> word_here rest)"

text \<open>In an empty text neither \<open>\\b\<close> nor \<open>\\B\<close> matches (Python 3.11).\<close>

definition one_char :: "(char \<Rightarrow> bool) \<Rightarrow> string \<Rightarrow> caps \<Rightarrow> outcome list" where
  "one_char ok rest cs = (case rest of [] \<Rightarrow> [] | c # cs' \<Rightarrow> if ok c then [(Some c, cs', cs)] else [])"

definition zero_width :: "bool \<Rightarrow> char option \<Rightarrow> string \<Rightarrow> caps \<Rightarrow> outcome list" where
  "zero_width ok prev rest cs = (if ok then [(prev, rest, cs)] else [])"

text \<open>
  A greedy repeat tries one more round before it tries to stop. The body never matches
  the empty string (the parser sees to that), so \<open>length rest\<close> rounds are enough.
\<close>

fun star :: "(char option \<Rightarrow> string \<Rightarrow> caps \<Rightarrow> outcome list) \<Rightarrow> nat \<Rightarrow>
    char option \<Rightarrow> string \<Rightarrow> caps \<Rightarrow> outcome list" where
  "star f 0 prev rest cs = [(prev, rest, cs)]"
| "star f (Suc k) prev rest cs =
     concat (map (\<lambda>(prev', rest', cs').
                    if length rest' < length rest then star f k prev' rest' cs' else [])
                 (f prev rest cs))
     @ [(prev, rest, cs)]"

fun ms :: "regex \<Rightarrow> char option \<Rightarrow> string \<Rightarrow> caps \<Rightarrow> outcome list" where
  "ms (Lit a) prev rest cs = one_char (\<lambda>c. c = a) rest cs"
| "ms AnyChar prev rest cs = one_char (\<lambda>c. c \<noteq> NL) rest cs"
| "ms (In negate items) prev rest cs = one_char (\<lambda>c. (\<exists>i \<in> set items. in_item i c) \<noteq> negate) rest cs"
| "ms AtBoundary prev rest cs = zero_width (at_boundary prev rest) prev rest cs"
| "ms AtNonBoundary prev rest cs =
     zero_width (\<not> at_boundary prev rest \<and> \<not> (prev = None \<and> rest = [])) prev rest cs"
| "ms AtBeginning prev rest cs = zero_width (prev = None) prev rest cs"
| "ms AtEnd prev rest cs = zero_width (rest = [] \<or> rest = [NL]) prev rest cs"
| "ms AtEndString prev rest cs = zero_width (rest = []) prev rest cs"
| "ms Empty prev rest cs = [(prev, rest, cs)]"
| "ms (Seq a b) prev rest cs =
     concat (map (\<lambda>(prev', rest', cs'). ms b prev' rest' cs') (ms a prev rest cs))"
| "ms (Branch a b) prev rest cs = ms a prev rest cs @ ms b prev rest cs"
| "ms (Subpattern n r) prev rest cs =
     map (\<lambda>(prev', rest', cs'). (prev', rest', (n, take (length rest - length rest') rest) # cs'))
         (ms r prev rest cs)"
| "ms (Noncapturing r) prev rest cs = ms r prev rest cs"
| "ms (Star r) prev rest cs = star (\<lambda>p s c. ms r p s c) (length rest) prev rest cs"
| "ms (Plus r) prev rest cs =
     concat (map (\<lambda>(prev', rest', cs'). star (\<lambda>p s c. ms r p s c) (length rest') prev' rest' cs')
                 (ms r prev rest cs))"
| "ms (Opt r) prev rest cs = ms r prev rest cs @ [(prev, rest, cs)]"

text \<open>
  The match that \<open>re\<close> reports at a position is the first outcome; when the previous
  match was empty and ended here (\<open>must_advance\<close>), the first non-empty one. The result
  is the length of the match and its groups, group 0 being the whole match.
\<close>

definition match_here :: "regex \<Rightarrow> bool \<Rightarrow> char option \<Rightarrow> string \<Rightarrow> (nat \<times> caps) option" where
  "match_here r must_advance prev rest =
     (case filter (\<lambda>(prev', rest', cs). \<not> must_advance \<or> length rest' < length rest)
                  (ms r prev rest []) of
        [] \<Rightarrow> None
      | (prev', rest', cs) # _ \<Rightarrow>
          Some (length rest - length rest', (0, take (length rest - length rest') rest) # cs))"

fun search_from :: "regex \<Rightarrow> char option \<Rightarrow> string \<Rightarrow> bool" where
  "search_from r prev [] = (match_here r False prev [] \<noteq> None)"
| "search_from r prev (c # cs) =
     (match_here r False prev (c # cs) \<noteq> None \<or> search_from r (Some c) cs)"

definition re_search :: "string \<Rightarrow> string \<Rightarrow> re_error + bool" where
  \<comment> \<open>whether \<open>re.search(pattern, text)\<close> finds a match\<close>
  "re_search p text =
     (case re_compile p of Inl e \<Rightarrow> Inl e | Inr (r, n) \<Rightarrow> Inr (search_from r None text))"

subsection \<open>Replacement templates\<close>

datatype titem = TLit char | TGroup nat

fun digits_value :: "nat \<Rightarrow> string \<Rightarrow> nat" where
  "digits_value acc [] = acc"
| "digits_value acc (c # cs) = digits_value (10 * acc + (code c - 48)) cs"

text \<open>The name of a group reference: the characters up to the closing angle bracket, and the tokens after it.\<close>

fun group_name :: "string \<Rightarrow> token list \<Rightarrow> re_error + (string \<times> token list)" where
  "group_name acc [] = Inl (Invalid ''missing >, unterminated name'')"
| "group_name acc (TChar c # ts) =
     (if c = CHR ''>'' then
        (if acc = [] then Inl (Invalid ''missing group name'') else Inr (rev acc, ts))
      else group_name (c # acc) ts)"
| "group_name acc (_ # ts) = Inl OutsideModel"

definition group_ref :: "nat \<Rightarrow> nat \<Rightarrow> re_error + titem" where
  "group_ref groups i = (if i > groups then Inl (Invalid ''invalid group reference'') else Inr (TGroup i))"

function parse_template :: "nat \<Rightarrow> token list \<Rightarrow> re_error + titem list" where
  "parse_template groups [] = Inr []"
| "parse_template groups (TChar c # ts) =
     (case parse_template groups ts of Inl e \<Rightarrow> Inl e | Inr items \<Rightarrow> Inr (TLit c # items))"
| "parse_template groups (TBad # ts) = Inl (Invalid ''bad escape (end of pattern)'')"
| "parse_template groups (TEsc c # ts) =
     (if c = CHR ''g'' then
        (case ts of
           [] \<Rightarrow> Inl (Invalid ''missing <'')
         | t # ts' \<Rightarrow>
             if t \<noteq> TChar (CHR ''<'') then Inl (Invalid ''missing <'')
             else (case group_name [] ts' of
                    Inl e \<Rightarrow> Inl e
                  | Inr (name, rest) \<Rightarrow>
                      if \<not> list_all is_digit name then Inl OutsideModel
                      else if \<not> length rest < Suc (length ts) then Inl OutsideModel
                      else (case group_ref groups (digits_value 0 name) of
                             Inl e \<Rightarrow> Inl e
                           | Inr g \<Rightarrow>
                               (case parse_template groups rest of
                                  Inl e \<Rightarrow> Inl e | Inr items \<Rightarrow> Inr (g # items)))))
      else if is_digit c then
        (if c = CHR ''0'' then Inl OutsideModel
         else if (case ts of TChar d # _ \<Rightarrow> is_digit d | _ \<Rightarrow> False) then Inl OutsideModel
         else (case group_ref groups (code c - 48) of
                Inl e \<Rightarrow> Inl e
              | Inr g \<Rightarrow>
                  (case parse_template groups ts of
                     Inl e \<Rightarrow> Inl e | Inr items \<Rightarrow> Inr (g # items))))
      else (case control_escape c of
             Some x \<Rightarrow>
               (case parse_template groups ts of
                  Inl e \<Rightarrow> Inl e | Inr items \<Rightarrow> Inr (TLit x # items))
           | None \<Rightarrow>
               if is_ascii_letter c then Inl (Invalid ''bad escape'')
               else (case parse_template groups ts of
                      Inl e \<Rightarrow> Inl e | Inr items \<Rightarrow> Inr (TLit BS # TLit c # items))))"
  by pat_completeness auto
termination
  by (relation "measure (\<lambda>(groups, ts). length ts)") auto

definition compile_template :: "nat \<Rightarrow> string \<Rightarrow> re_error + titem list" where
  "compile_template groups repl = parse_template groups (tokenize repl)"

fun expand :: "titem list \<Rightarrow> caps \<Rightarrow> string" where
  "expand [] cs = []"
| "expand (TLit c # items) cs = c # expand items cs"
| "expand (TGroup n # items) cs = (case map_of cs n of None \<Rightarrow> [] | Some s \<Rightarrow> s) @ expand items cs"

subsection \<open>Substitution\<close>

text \<open>
  What \<open>re.sub\<close> does at one position where a search starts: the replacement text it
  emits there and the number of characters the match consumes. After an empty match the
  search resumes at the same position and must advance, so a second, non-empty match may
  follow at once.
\<close>

definition replace_here :: "regex \<Rightarrow> titem list \<Rightarrow> char option \<Rightarrow> string \<Rightarrow> string \<times> nat" where
  "replace_here r t prev rest =
     (case match_here r False prev rest of
        None \<Rightarrow> ([], 0)
      | Some (n, cs) \<Rightarrow>
          if n > 0 then (expand t cs, n)
          else (case match_here r True prev rest of
                  None \<Rightarrow> (expand t cs, 0)
                | Some (n', cs') \<Rightarrow> (expand t cs @ expand t cs', n')))"

text \<open>
  The loop over the positions of the text: \<open>skip\<close> counts the characters still covered
  by the last match; elsewhere a search starts, and a character that no match covers is
  copied.
\<close>

fun sub_loop :: "regex \<Rightarrow> titem list \<Rightarrow> char option \<Rightarrow> string \<Rightarrow> nat \<Rightarrow> string" where
  "sub_loop r t prev [] skip = (if skip > 0 then [] else fst (replace_here r t prev []))"
| "sub_loop r t prev (c # cs) skip =
     (if skip > 0 then sub_loop r t (Some c) cs (skip - 1)
      else case replace_here r t prev (c # cs) of
             (out, n) \<Rightarrow>
               if n = 0 then out @ c # sub_loop r t (Some c) cs 0
               else out @ sub_loop r t (Some c) cs (n - 1))"

definition re_sub :: "string \<Rightarrow> string \<Rightarrow> string \<Rightarrow> re_error + string" where
  \<comment> \<open>\<open>re.sub(pattern, repl, text)\<close>; pattern and template are compiled before the text is read\<close>
  "re_sub p repl text =
     (case re_compile p of
        Inl e \<Rightarrow> Inl e
      | Inr (r, groups) \<Rightarrow>
          (case compile_template groups repl of
             Inl e \<Rightarrow> Inl e
           | Inr t \<Rightarrow> Inr (sub_loop r t None text 0)))"

definition special_char :: "char \<Rightarrow> bool" where
  \<comment> \<open>the characters that \<open>re.escape\<close> escapes\<close>
  "special_char c =
     (code c \<in> {9, 10, 11, 12, 13, 32, 35, 36, 38, 40, 41, 42, 43, 45, 46, 63,
                91, 92, 93, 94, 123, 124, 125, 126})"

definition re_escape :: "string \<Rightarrow> string" where
  "re_escape s = concat (map (\<lambda>c. if special_char c then [BS, c] else [c]) s)"

subsection \<open>Other string operations of the program\<close>

definition replace_char :: "char \<Rightarrow> string \<Rightarrow> string \<Rightarrow> string" where
  \<comment> \<open>\<open>text.replace(old, new)\<close> for a one-character \<open>old\<close>\<close>
  "replace_char old new text = concat (map (\<lambda>c. if c = old then new else [c]) text)"

fun starts_with :: "string \<Rightarrow> string \<Rightarrow> bool" where
  "starts_with [] s = True"
| "starts_with (p # ps) [] = False"
| "starts_with (p # ps) (c # cs) = (p = c \<and> starts_with ps cs)"

fun contains :: "string \<Rightarrow> string \<Rightarrow> bool" where
  \<comment> \<open>\<open>sub in s\<close>\<close>
  "contains sub [] = (sub = [])"
| "contains sub (c # cs) = (starts_with sub (c # cs) \<or> contains sub cs)"

fun split_from :: "string \<Rightarrow> string \<Rightarrow> string list" where
  "split_from cur [] = (if cur = [] then [] else [rev cur])"
| "split_from cur (c # cs) =
     (if is_space c then (if cur = [] then split_from [] cs else rev cur # split_from [] cs)
      else split_from (c # cur) cs)"

definition split :: "string \<Rightarrow> string list" where
  \<comment> \<open>\<open>text.split()\<close>: the maximal runs of non-whitespace characters\<close>
  "split text = split_from [] text"

section \<open>The correction rule set and its application (pp6.py)\<close>

record pattern_fix =
  pattern :: string
  replacement :: string
  description :: string

text \<open>
  The rule set is the dictionary \<open>learned_corrections\<close>. Its \<open>word_replacements\<close>
  are a dictionary, iterated in insertion order: an association list with distinct keys.
\<close>

record corrections =
  word_replacements :: "(string \<times> string) list"
  pattern_fixes :: "pattern_fix list"
  context_corrections :: "(string \<times> string) list"

definition LEARNING_ENABLED :: bool where
  "LEARNING_ENABLED = True"

definition word_pattern :: "string \<Rightarrow> string" where
  \<comment> \<open>\<open>r'\\b' + re.escape(wrong) + r'\\b'\<close>\<close>
  "word_pattern wrong = [BS, CHR ''b''] @ re_escape wrong @ [BS, CHR ''b'']"

fun apply_word_replacements :: "(string \<times> string) list \<Rightarrow> string \<Rightarrow> re_error + string" where
  "apply_word_replacements [] text = Inr text"
| "apply_word_replacements ((wrong, right) # rest) text =
     (case re_sub (word_pattern wrong) right text of
        Inl e \<Rightarrow> Inl e
      | Inr text' \<Rightarrow> apply_word_replacements rest text')"

fun apply_pattern_fixes :: "pattern_fix list \<Rightarrow> string \<Rightarrow> re_error + string" where
  "apply_pattern_fixes [] text = Inr text"
| "apply_pattern_fixes (pattern_fix # rest) text =
     (case re_sub (pattern pattern_fix) (replacement pattern_fix) text of
        Inl e \<Rightarrow> Inl e
      | Inr text' \<Rightarrow> apply_pattern_fixes rest text')"

text \<open>
  \<open>apply_learned_corrections\<close> has no exception handler: the first \<open>re.sub\<close> that
  raises ends the call, and the exception (\<open>Inl\<close>) is what the caller gets.
\<close>

definition apply_learned_corrections :: "corrections \<Rightarrow> string \<Rightarrow> re_error + string" where
  "apply_learned_corrections learned_corrections text =
     (if \<not> LEARNING_ENABLED then Inr text
      else case apply_word_replacements (word_replacements learned_corrections) text of
             Inl e \<Rightarrow> Inl e
           | Inr text' \<Rightarrow> apply_pattern_fixes (pattern_fixes learned_corrections) text')"

subsection \<open>cleanText\<close>

definition sub_step :: "string \<Rightarrow> string \<Rightarrow> re_error + string \<Rightarrow> re_error + string" where
  \<comment> \<open>one statement \<open>text = re.sub(p, repl, text)\<close> of a sequence\<close>
  "sub_step p repl r = (case r of Inl e \<Rightarrow> Inl e | Inr text \<Rightarrow> re_sub p repl text)"

definition map_step :: "(string \<Rightarrow> string) \<Rightarrow> re_error + string \<Rightarrow> re_error + string" where
  \<comment> \<open>one statement that cannot raise\<close>
  "map_step f r = (case r of Inl e \<Rightarrow> Inl e | Inr text \<Rightarrow> Inr (f text))"

definition basic_cleanup :: "string \<Rightarrow> re_error + string" where
  "basic_cleanup text =
     sub_step (BS # ''$'' @ BS # ''s+'') ''$''
       (sub_step (BS # ''s+'') '' '' (Inr text))"

definition standard_cleanup :: "string \<Rightarrow> re_error + string" where
  \<comment> \<open>"Step 3: Standard cleanup"; the statements run from the innermost outwards\<close>
  "standard_cleanup text =
     map_step strip
       (sub_step (BS # ''s+'') '' ''
       (map_step (replace_char (CHR 0xB0) '' degrees '')
       (map_step (replace_char (CHR ''*'') '' times '')
       (map_step (replace_char (CHR ''='') '' equals '')
       (map_step (replace_char (CHR ''+'') '' plus '')
       (map_step (replace_char (CHR ''#'') '' number '')
       (map_step (replace_char (CHR ''@'') '' at '')
       (map_step (replace_char (CHR ''&'') '' and '')
       (map_step (replace_char (CHR ''%'') '' percent '')
       (sub_step (BS # ''$('' @ BS # ''d+'' @ BS # ''.?'' @ BS # ''d*)'') (BS # ''1 dollars '')
       (sub_step (''('' @ BS # ''d)'' @ BS # ''s*/'' @ BS # ''s*('' @ BS # ''d)'') (BS # ''1/'' @ BS # ''2'')
       (sub_step (''('' @ BS # ''d)'' @ BS # ''s*:'' @ BS # ''s*('' @ BS # ''d)'') (BS # ''1:'' @ BS # ''2'')
       (sub_step (''('' @ BS # ''d)[Oo]'') (BS # ''1 0'')
       (sub_step (''[Oo]('' @ BS # ''d)'') (''0'' @ BS # ''1'')
       (sub_step (''('' @ BS # ''d)[lI]('' @ BS # ''d)'') (BS # ''1 1 '' @ BS # ''2'')
       (sub_step (''('' @ BS # ''d)[Oo]('' @ BS # ''d)'') (BS # ''1 0 '' @ BS # ''2'')
       (sub_step (BS # ''$[lI]'') ''$1''
       (sub_step (BS # ''$[Oo]'') ''$0'' (Inr text)))))))))))))))))))"

text \<open>
  The body of \<open>cleanText\<close> between reading and writing \<open>/tmp/text.txt\<close>.
  \<open>apply_spellcheck\<close> belongs to an external spellchecker and always returns a string; it
  is the parameter \<open>spellcheck\<close> (the identity when no spellchecker is loaded).
\<close>

definition clean_steps :: "corrections \<Rightarrow> (string \<Rightarrow> string) \<Rightarrow> string \<Rightarrow> re_error + string" where
  "clean_steps learned_corrections spellcheck text =
     (case basic_cleanup text of Inl e \<Rightarrow> Inl e | Inr text1 \<Rightarrow>
     (case apply_learned_corrections learned_corrections text1 of Inl e \<Rightarrow> Inl e | Inr text2 \<Rightarrow>
      standard_cleanup (spellcheck text2)))"

definition cleanText :: "corrections \<Rightarrow> (string \<Rightarrow> string) \<Rightarrow> string \<Rightarrow> string" where
  \<comment> \<open>the content of \<open>/tmp/text.txt\<close> after the call, given its content before: an
      exception is logged and the file is not written\<close>
  "cleanText learned_corrections spellcheck text =
     (case clean_steps learned_corrections spellcheck text of Inl e \<Rightarrow> text | Inr text' \<Rightarrow> text')"

definition qq_fix :: pattern_fix where
  \<comment> \<open>the rule that both learners append for the hypothesis "qq read for 99"\<close>
  "qq_fix = \<lparr>pattern = ''('' @ BS # ''d+)'' @ BS # ''.qq'' @ BS # ''b'',
            replacement = BS # ''1.99'',
            description = ''qq at end of price -> 99''\<rparr>"

definition dollar_O_fix :: pattern_fix where
  "dollar_O_fix = \<lparr>pattern = BS # ''$[Oo]'', replacement = ''$0'',
                  description = ''$O or $o -> $0''\<rparr>"

definition l_fix :: pattern_fix where
  "l_fix = \<lparr>pattern = ''('' @ BS # ''d)[lI]('' @ BS # ''d)'',
           replacement = BS # ''g<1>1'' @ BS # ''2'',
           description = ''l or I between numbers -> 1''\<rparr>"

definition O_fix :: pattern_fix where
  "O_fix = \<lparr>pattern = ''('' @ BS # ''d)[Oo]('' @ BS # ''d)'',
           replacement = BS # ''g<1>0'' @ BS # ''2'',
           description = ''O in numbers -> 0''\<rparr>"


section \<open>Aligning two word sequences: \<open>difflib.SequenceMatcher\<close>\<close>

text \<open>
  Both learners align the OCR words with the corrected words by
  \<open>difflib.SequenceMatcher(None, a, b).get_opcodes()\<close>. This section models that
  computation as the library does it: the index of the second sequence with its
  "popular" elements left out, the search for a longest matching block with its tie
  rule, the recursion over the gaps on both sides of a block, and the classification of
  the gaps between blocks.
\<close>

definition indices_of :: "'a \<Rightarrow> 'a list \<Rightarrow> nat list" where
  "indices_of x b = filter (\<lambda>j. b ! j = x) [0..<length b]"

definition popular :: "'a list \<Rightarrow> 'a \<Rightarrow> bool" where
  \<comment> \<open>the automatic junk heuristic: in a sequence of 200 elements or more, an element
      that occurs more than \<open>n // 100 + 1\<close> times is not indexed\<close>
  "popular b x = (length b \<ge> 200 \<and> length (indices_of x b) > length b div 100 + 1)"

definition b2j :: "'a list \<Rightarrow> 'a \<Rightarrow> nat list" where
  \<comment> \<open>\<open>b2j.get(x, [])\<close>: the positions of \<open>x\<close> in \<open>b\<close>, in increasing order\<close>
  "b2j b x = (if popular b x then [] else indices_of x b)"

type_synonym block = "nat \<times> nat \<times> nat"

text \<open>
  The inner loop of \<open>find_longest_match\<close> for one \<open>i\<close>: \<open>j2len\<close> gives for each
  \<open>j\<close> the length of the longest match that ends at \<open>i - 1\<close> and \<open>j\<close> (0 where the
  dictionary has no entry), \<open>newj2len\<close> is the same for \<open>i\<close>.
\<close>

fun inner_loop :: "nat \<Rightarrow> (nat \<Rightarrow> nat) \<Rightarrow> nat \<Rightarrow> nat \<Rightarrow> nat list \<Rightarrow>
    (nat \<Rightarrow> nat) \<times> block \<Rightarrow> (nat \<Rightarrow> nat) \<times> block" where
  "inner_loop i j2len blo bhi [] (newj2len, best) = (newj2len, best)"
| "inner_loop i j2len blo bhi (j # js) (newj2len, (besti, bestj, bestsize)) =
     (if j < blo then inner_loop i j2len blo bhi js (newj2len, (besti, bestj, bestsize))
      else if j \<ge> bhi then (newj2len, (besti, bestj, bestsize))
      else let k = (if j = 0 then 0 else j2len (j - 1)) + 1 in
           inner_loop i j2len blo bhi js
             (newj2len(j := k),
              if k > bestsize then (i + 1 - k, j + 1 - k, k) else (besti, bestj, bestsize)))"

fun outer_loop :: "'a list \<Rightarrow> 'a list \<Rightarrow> nat \<Rightarrow> nat \<Rightarrow> nat list \<Rightarrow>
    (nat \<Rightarrow> nat) \<times> block \<Rightarrow> block" where
  "outer_loop a b blo bhi [] (j2len, best) = best"
| "outer_loop a b blo bhi (i # is) (j2len, best) =
     outer_loop a b blo bhi is (inner_loop i j2len blo bhi (b2j b (a ! i)) (\<lambda>j. 0, best))"

text \<open>
  The best block is then extended on both sides while the elements agree; this takes in
  the popular elements next to it. (No junk predicate is given, so the two loops that
  extend by junk never run.)
\<close>

function extend_left :: "'a list \<Rightarrow> 'a list \<Rightarrow> nat \<Rightarrow> nat \<Rightarrow> block \<Rightarrow> block" where
  "extend_left a b alo blo (besti, bestj, bestsize) =
     (if besti > alo \<and> bestj > blo \<and> a ! (besti - 1) = b ! (bestj - 1)
      then extend_left a b alo blo (besti - 1, bestj - 1, bestsize + 1)
      else (besti, bestj, bestsize))"
  by pat_completeness auto
termination
  by (relation "measure (\<lambda>(a, b, alo, blo, besti, bestj, bestsize). besti)") auto

function extend_right :: "'a list \<Rightarrow> 'a list \<Rightarrow> nat \<Rightarrow> nat \<Rightarrow> block \<Rightarrow> block" where
  "extend_right a b ahi bhi (besti, bestj, bestsize) =
     (if besti + bestsize < ahi \<and> bestj + bestsize < bhi \<and>
         a ! (besti + bestsize) = b ! (bestj + bestsize)
      then extend_right a b ahi bhi (besti, bestj, bestsize + 1)
      else (besti, bestj, bestsize))"
  by pat_completeness auto
termination
  by (relation "measure (\<lambda>(a, b, ahi, bhi, besti, bestj, bestsize). ahi - (besti + bestsize))") auto

declare extend_left.simps [simp del] extend_right.simps [simp del]

definition find_longest_match :: "'a list \<Rightarrow> 'a list \<Rightarrow> nat \<Rightarrow> nat \<Rightarrow> nat \<Rightarrow> nat \<Rightarrow> block" where
  "find_longest_match a b alo ahi blo bhi =
     extend_right a b ahi bhi
       (extend_left a b alo blo
          (outer_loop a b blo bhi [alo..<ahi] (\<lambda>j. 0, (alo, blo, 0))))"

text \<open>
  A block found in the window \<open>alo..ahi\<close>, \<open>blo..bhi\<close> lies inside the window. The
  recursion over the gaps depends on this to terminate, so it is proved here, before the
  recursion is defined.
\<close>

definition within :: "nat \<Rightarrow> nat \<Rightarrow> nat \<Rightarrow> nat \<Rightarrow> block \<Rightarrow> bool" where
  "within alo ahi blo bhi blk =
     (case blk of (i, j, k) \<Rightarrow>
        alo \<le> i \<and> blo \<le> j \<and> (k = 0 \<longrightarrow> i = alo \<and> j = blo) \<and>
        (k > 0 \<longrightarrow> i + k \<le> ahi \<and> j + k \<le> bhi))"

lemma inner_loop_within:
  assumes "alo \<le> i" and "i < ahi"
      and "\<forall>j. j2len j \<le> i - alo \<and> j2len j \<le> j + 1 - blo"
      and "within alo ahi blo bhi best"
      and "\<forall>j. new j \<le> i + 1 - alo \<and> new j \<le> j + 1 - blo"
  shows "within alo ahi blo bhi (snd (inner_loop i j2len blo bhi js (new, best))) \<and>
         (\<forall>j. fst (inner_loop i j2len blo bhi js (new, best)) j \<le> i + 1 - alo \<and>
              fst (inner_loop i j2len blo bhi js (new, best)) j \<le> j + 1 - blo)"
  using assms(4,5)
proof (induction js arbitrary: new best)
  case Nil
  then show ?case by simp
next
  case (Cons j js)
  obtain bi bj bs where best: "best = (bi, bj, bs)" by (cases best)
  show ?case
  proof (cases "j < blo")
    case True
    with Cons best show ?thesis by simp
  next
    case lo: False
    show ?thesis
    proof (cases "j \<ge> bhi")
      case True
      with lo Cons.prems best show ?thesis by simp
    next
      case hi: False
      define k where "k = (if j = 0 then 0 else j2len (j - 1)) + 1"
      have k1: "k \<le> i + 1 - alo"
      proof -
        from assms(3) have "j2len (j - 1) \<le> i - alo" by blast
        with assms(1) show ?thesis by (auto simp: k_def)
      qed
      have k2: "k \<le> j + 1 - blo"
      proof (cases "j = 0")
        case True
        with lo show ?thesis by (simp add: k_def)
      next
        case False
        from assms(3) have "j2len (j - 1) \<le> (j - 1) + 1 - blo" by blast
        with False lo show ?thesis by (simp add: k_def)
      qed
      have kpos: "k > 0" by (simp add: k_def)
      define best' where "best' = (if k > bs then (i + 1 - k, j + 1 - k, k) else (bi, bj, bs))"
      have w: "within alo ahi blo bhi best'"
        using Cons.prems(1) best k1 k2 kpos assms(1,2) lo hi
        by (auto simp: best'_def within_def)
      have n: "\<forall>j'. (new(j := k)) j' \<le> i + 1 - alo \<and> (new(j := k)) j' \<le> j' + 1 - blo"
        using Cons.prems(2) k1 k2 by simp
      have step: "inner_loop i j2len blo bhi (j # js) (new, best) =
          inner_loop i j2len blo bhi js (new(j := k), best')"
        using lo hi best by (simp add: k_def best'_def Let_def)
      show ?thesis unfolding step by (rule Cons.IH [OF w n])
    qed
  qed
qed

lemma outer_loop_within:
  assumes "alo \<le> m"
      and "\<forall>j. j2len j \<le> m - alo \<and> j2len j \<le> j + 1 - blo"
      and "within alo ahi blo bhi best"
  shows "within alo ahi blo bhi (outer_loop a b blo bhi [m..<ahi] (j2len, best))"
  using assms
proof (induction "ahi - m" arbitrary: m j2len best)
  case 0
  then show ?case by simp
next
  case (Suc n)
  then have m: "m < ahi" by simp
  then have upt: "[m..<ahi] = m # [Suc m..<ahi]" by (rule upt_conv_Cons)
  have zero: "\<forall>j. (\<lambda>j. 0 :: nat) j \<le> m + 1 - alo \<and> (\<lambda>j. 0 :: nat) j \<le> j + 1 - blo" by simp
  obtain new best' where il: "inner_loop m j2len blo bhi (b2j b (a ! m)) (\<lambda>j. 0, best) = (new, best')"
    by (cases "inner_loop m j2len blo bhi (b2j b (a ! m)) (\<lambda>j. 0, best)")
  from inner_loop_within [OF Suc.prems(1) m Suc.prems(2) Suc.prems(3) zero, of "b2j b (a ! m)"] il
  have w: "within alo ahi blo bhi best'"
    and n: "\<forall>j. new j \<le> Suc m - alo \<and> new j \<le> j + 1 - blo"
    by simp_all
  from Suc.hyps(2) have "n = ahi - Suc m" by simp
  from Suc.hyps(1) [OF this _ n w] Suc.prems(1) upt il show ?case by simp
qed

lemma extend_left_within:
  "within alo ahi blo bhi blk \<Longrightarrow> within alo ahi blo bhi (extend_left a b alo blo blk)"
proof (induction a b alo blo blk rule: extend_left.induct)
  case (1 a b alo blo besti bestj bestsize)
  show ?case
  proof (cases "besti > alo \<and> bestj > blo \<and> a ! (besti - 1) = b ! (bestj - 1)")
    case True
    with "1.prems" have "within alo ahi blo bhi (besti - 1, bestj - 1, bestsize + 1)"
      by (auto simp: within_def)
    with "1.IH" True show ?thesis by (subst extend_left.simps) simp
  next
    case False
    with "1.prems" show ?thesis by (subst extend_left.simps) auto
  qed
qed

lemma extend_right_within:
  "within alo ahi blo bhi blk \<Longrightarrow> within alo ahi blo bhi (extend_right a b ahi bhi blk)"
proof (induction a b ahi bhi blk rule: extend_right.induct)
  case (1 a b ahi bhi besti bestj bestsize)
  show ?case
  proof (cases "besti + bestsize < ahi \<and> bestj + bestsize < bhi \<and>
         a ! (besti + bestsize) = b ! (bestj + bestsize)")
    case True
    with "1.prems" have "within alo ahi blo bhi (besti, bestj, bestsize + 1)"
      by (auto simp: within_def)
    with "1.IH" True show ?thesis by (subst extend_right.simps) simp
  next
    case False
    with "1.prems" show ?thesis by (subst extend_right.simps) auto
  qed
qed

lemma find_longest_match_within:
  "within alo ahi blo bhi (find_longest_match a b alo ahi blo bhi)"
proof -
  have "within alo ahi blo bhi (alo, blo, 0)" by (simp add: within_def)
  then have "within alo ahi blo bhi (outer_loop a b blo bhi [alo..<ahi] (\<lambda>j. 0, (alo, blo, 0)))"
    by (intro outer_loop_within) simp_all
  then show ?thesis
    unfolding find_longest_match_def by (intro extend_right_within extend_left_within)
qed

lemma find_longest_match_bounds:
  assumes "find_longest_match a b alo ahi blo bhi = (i, j, k)" and "k \<noteq> 0"
  shows "alo \<le> i \<and> i + k \<le> ahi \<and> blo \<le> j \<and> j + k \<le> bhi"
  using find_longest_match_within [of alo ahi blo bhi a b] assms by (simp add: within_def)

text \<open>
  \<open>get_matching_blocks\<close> keeps a stack of windows, finds the longest block of each and
  pushes the windows to its left and to its right; it sorts the blocks at the end. A block
  to the left of another starts earlier, so the sorted list is the blocks of the left
  window, the block, the blocks of the right window.
\<close>

function matching_blocks_in :: "'a list \<Rightarrow> 'a list \<Rightarrow> nat \<Rightarrow> nat \<Rightarrow> nat \<Rightarrow> nat \<Rightarrow> block list" where
  "matching_blocks_in a b alo ahi blo bhi =
     (case find_longest_match a b alo ahi blo bhi of
        (i, j, k) \<Rightarrow>
          if k = 0 then []
          else (if alo < i \<and> blo < j then matching_blocks_in a b alo i blo j else [])
               @ [(i, j, k)]
               @ (if i + k < ahi \<and> j + k < bhi then matching_blocks_in a b (i + k) ahi (j + k) bhi
                  else []))"
  by pat_completeness auto
termination
  apply (relation "measure (\<lambda>(a, b, alo, ahi, blo, bhi). ahi - alo)")
    apply simp
   apply (auto dest!: find_longest_match_bounds [OF sym])
  done

declare matching_blocks_in.simps [simp del]

text \<open>Adjacent blocks are merged, and a block of size 0 closes the list.\<close>

fun collapse :: "block \<Rightarrow> block list \<Rightarrow> block list" where
  "collapse (i1, j1, k1) [] = (if k1 > 0 then [(i1, j1, k1)] else [])"
| "collapse (i1, j1, k1) ((i2, j2, k2) # rest) =
     (if i1 + k1 = i2 \<and> j1 + k1 = j2 then collapse (i1, j1, k1 + k2) rest
      else (if k1 > 0 then [(i1, j1, k1)] else []) @ collapse (i2, j2, k2) rest)"

definition get_matching_blocks :: "'a list \<Rightarrow> 'a list \<Rightarrow> block list" where
  "get_matching_blocks a b =
     collapse (0, 0, 0) (matching_blocks_in a b 0 (length a) 0 (length b))
     @ [(length a, length b, 0)]"

datatype tag = Replace | Delete | Insert | Equal

type_synonym opcode = "tag \<times> nat \<times> nat \<times> nat \<times> nat"

fun opcodes_from :: "nat \<Rightarrow> nat \<Rightarrow> block list \<Rightarrow> opcode list" where
  "opcodes_from i j [] = []"
| "opcodes_from i j ((ai, bj, sz) # rest) =
     (if i < ai \<and> j < bj then [(Replace, i, ai, j, bj)]
      else if i < ai then [(Delete, i, ai, j, bj)]
      else if j < bj then [(Insert, i, ai, j, bj)]
      else [])
     @ (if sz > 0 then [(Equal, ai, ai + sz, bj, bj + sz)] else [])
     @ opcodes_from (ai + sz) (bj + sz) rest"

definition get_opcodes :: "'a list \<Rightarrow> 'a list \<Rightarrow> opcode list" where
  "get_opcodes a b = opcodes_from 0 0 (get_matching_blocks a b)"

section \<open>The extractor and the two synthesizers\<close>

subsection \<open>Word-level observations\<close>

text \<open>
  The loop over the opcodes, the same in \<open>learn.py\<close> and \<open>pp6.py\<close>: every
  \<open>replace\<close> region yields the pairs of its words, position by position.
\<close>

definition replaced_pairs :: "string list \<Rightarrow> string list \<Rightarrow> opcode \<Rightarrow> (string \<times> string) list" where
  "replaced_pairs ocr_words correct_words op =
     (case op of (tag, i1, i2, j1, j2) \<Rightarrow>
        if tag = Replace then
          map (\<lambda>(i, j). (ocr_words ! i, correct_words ! j))
              (filter (\<lambda>(i, j). i < length ocr_words \<and> j < length correct_words)
                      (zip [i1..<i2] [j1..<j2]))
        else [])"

definition observations :: "string \<Rightarrow> string \<Rightarrow> (string \<times> string) list" where
  \<comment> \<open>the (wrong, right) pairs that one sample contributes, in the order found\<close>
  "observations ocr correct =
     (if ocr = correct then []
      else let ocr_words = split ocr; correct_words = split correct
           in concat (map (replaced_pairs ocr_words correct_words)
                          (get_opcodes ocr_words correct_words)))"

text \<open>
  \<open>word_changes\<close> is a dictionary of dictionaries of counts; both keep insertion order.
  \<open>dict_set\<close> is the assignment \<open>d[k] = v\<close>: in place for a key that exists, at the end
  for a new one.
\<close>

fun dict_set :: "('k \<times> 'v) list \<Rightarrow> 'k \<Rightarrow> 'v \<Rightarrow> ('k \<times> 'v) list" where
  "dict_set [] k v = [(k, v)]"
| "dict_set ((k', v') # d) k v = (if k' = k then (k, v) # d else (k', v') # dict_set d k v)"

type_synonym word_changes = "(string \<times> (string \<times> nat) list) list"

definition bump :: "word_changes \<Rightarrow> string \<times> string \<Rightarrow> word_changes" where
  \<comment> \<open>\<open>word_changes[wrong][right] += 1\<close> on default dictionaries\<close>
  "bump wc p =
     (case p of (wrong, right) \<Rightarrow>
        let rights = (case map_of wc wrong of None \<Rightarrow> [] | Some r \<Rightarrow> r);
            n = (case map_of rights right of None \<Rightarrow> 0 | Some n \<Rightarrow> n)
        in dict_set wc wrong (dict_set rights right (n + 1)))"

subsection \<open>learn.py\<close>

definition get_text :: "string option \<Rightarrow> string" where
  \<comment> \<open>\<open>sample.get(key, '')\<close>\<close>
  "get_text field = (case field of None \<Rightarrow> [] | Some s \<Rightarrow> s)"

fun analyze_from :: "word_changes \<Rightarrow> sample list \<Rightarrow> word_changes" where
  "analyze_from wc [] = wc"
| "analyze_from wc (s # samples) =
     analyze_from
       (fold (\<lambda>p wc'. bump wc' p)
             (observations (get_text (ocr_text s)) (get_text (corrected_text s))) wc)
       samples"

definition analyze_corrections :: "sample list \<Rightarrow> word_changes" where
  "analyze_corrections samples = analyze_from [] samples"

text \<open>
  \<open>max(rights.items(), key=lambda x: x[1])\<close>: the first item with the greatest count;
  \<open>ValueError\<close> for an empty dictionary.
\<close>

fun max_from :: "string \<times> nat \<Rightarrow> (string \<times> nat) list \<Rightarrow> string \<times> nat" where
  "max_from best [] = best"
| "max_from best (x # xs) = max_from (if snd x > snd best then x else best) xs"

definition most_common :: "(string \<times> nat) list \<Rightarrow> (string \<times> nat) option" where
  "most_common rights = (case rights of [] \<Rightarrow> None | x # xs \<Rightarrow> Some (max_from x xs))"

text \<open>
  The loop that fills \<open>word_replacements\<close>. It returns the dictionary as the loop
  leaves it and the exception that ended it, if any.
\<close>

fun replacements_from :: "(string \<times> string) list \<Rightarrow> word_changes \<Rightarrow>
    (string \<times> string) list \<times> py_error option" where
  "replacements_from learned [] = (learned, None)"
| "replacements_from learned ((wrong, rights) # rest) =
     (case most_common rights of
        None \<Rightarrow> (learned, Some ValueError)
      | Some (most_common_fix, count) \<Rightarrow>
          if count \<ge> 2 then replacements_from (dict_set learned wrong most_common_fix) rest
          else replacements_from learned rest)"

definition found :: "string \<Rightarrow> string \<Rightarrow> bool" where
  \<comment> \<open>the truth value of \<open>re.search(p, t)\<close>\<close>
  "found p t = (re_search p t = Inr True)"

definition qq_evidence :: "string \<Rightarrow> string \<Rightarrow> bool" where
  "qq_evidence ocr correct = (contains ''qq'' ocr \<and> contains ''99'' correct)"

definition dollar_O_evidence :: "string \<Rightarrow> bool" where
  "dollar_O_evidence ocr = (contains ''$O'' ocr \<or> contains ''$o'' ocr)"

definition l_evidence :: "string \<Rightarrow> string \<Rightarrow> bool" where
  "l_evidence ocr correct =
     (found (BS # ''d[lI]'' @ BS # ''d'') ocr \<and> found (BS # ''d1'' @ BS # ''d'') correct)"

definition O_evidence :: "string \<Rightarrow> string \<Rightarrow> bool" where
  "O_evidence ocr correct =
     (found (BS # ''dO'' @ BS # ''d'') ocr \<and> found (BS # ''d0'' @ BS # ''d'') correct)"

definition any_sample :: "(string \<Rightarrow> string \<Rightarrow> bool) \<Rightarrow> sample list \<Rightarrow> bool" where
  \<comment> \<open>\<open>any(... for s in samples)\<close> with \<open>s.get('ocr_text', '')\<close> and \<open>s.get('corrected_text', '')\<close>\<close>
  "any_sample evidence samples =
     list_ex (\<lambda>s. evidence (get_text (ocr_text s)) (get_text (corrected_text s))) samples"

definition create_learned_corrections :: "word_changes \<Rightarrow> sample list \<Rightarrow> py_error + corrections" where
  "create_learned_corrections wc samples =
     (case replacements_from [] wc of
        (replacements, Some e) \<Rightarrow> Inl e
      | (replacements, None) \<Rightarrow>
          Inr \<lparr>word_replacements = replacements,
               pattern_fixes =
                 (if any_sample qq_evidence samples then [qq_fix] else []) @
                 (if any_sample (\<lambda>ocr correct. dollar_O_evidence ocr) samples then [dollar_O_fix] else []) @
                 (if any_sample l_evidence samples then [l_fix] else []) @
                 (if any_sample O_evidence samples then [O_fix] else []),
               context_corrections = []\<rparr>)"

definition learn :: "sample list \<Rightarrow> py_error + corrections" where
  \<comment> \<open>steps 2 and 3 of \<open>main\<close>\<close>
  "learn samples = create_learned_corrections (analyze_corrections samples) samples"

subsection \<open>pp6.py\<close>

definition initial_corrections :: corrections where
  \<comment> \<open>the module-level value of \<open>learned_corrections\<close>\<close>
  "initial_corrections = \<lparr>word_replacements = [], pattern_fixes = [], context_corrections = []\<rparr>"

text \<open>
  The loop over the samples reads \<open>sample['ocr_text']\<close> and
  \<open>sample['corrected_text']\<close>: a sample without one of them raises \<open>KeyError\<close>.
\<close>

fun analyze_strict :: "word_changes \<Rightarrow> sample list \<Rightarrow> py_error + word_changes" where
  "analyze_strict wc [] = Inr wc"
| "analyze_strict wc (s # samples) =
     (case ocr_text s of
        None \<Rightarrow> Inl (KeyError ''ocr_text'')
      | Some ocr \<Rightarrow>
          (case corrected_text s of
             None \<Rightarrow> Inl (KeyError ''corrected_text'')
           | Some correct \<Rightarrow>
               analyze_strict (fold (\<lambda>p wc'. bump wc' p) (observations ocr correct) wc) samples))"

definition l_evidence_pp6 :: "string \<Rightarrow> string \<Rightarrow> bool" where
  "l_evidence_pp6 ocr correct = (found (BS # ''dl'') ocr \<and> found (BS # ''d1'') correct)"

text \<open>
  \<open>learn_from_corrections\<close> works on the global rule set; the model takes it and returns
  it with the function's result. Every exception is caught and makes the result
  \<open>False\<close>.
  \<open>samples\<close> are the decoded files of the training directory.
\<close>

definition learn_from_corrections :: "corrections \<Rightarrow> sample list \<Rightarrow> corrections \<times> bool" where
  "learn_from_corrections learned_corrections samples =
     (if length samples < 5 then (learned_corrections, False)
      else case analyze_strict [] samples of
             Inl e \<Rightarrow> (learned_corrections, False)
           | Inr wc \<Rightarrow>
               (case replacements_from (word_replacements learned_corrections) wc of
                  (replacements, Some e) \<Rightarrow>
                    (learned_corrections\<lparr>word_replacements := replacements\<rparr>, False)
                | (replacements, None) \<Rightarrow>
                    (learned_corrections
                       \<lparr>word_replacements := replacements,
                        pattern_fixes :=
                          (if any_sample qq_evidence samples then [qq_fix] else []) @
                          (if any_sample (\<lambda>ocr correct. dollar_O_evidence ocr) samples
                           then [dollar_O_fix] else []) @
                          (if any_sample l_evidence_pp6 samples then [l_fix] else [])\<rparr>,
                     True)))"

subsection \<open>What the corpus shows\<close>

definition all_observations :: "sample list \<Rightarrow> (string \<times> string) list" where
  \<comment> \<open>every (wrong, right) pair that the extractor observes, over the whole corpus\<close>
  "all_observations samples =
     concat (map (\<lambda>s. observations (get_text (ocr_text s)) (get_text (corrected_text s))) samples)"

definition times_observed :: "sample list \<Rightarrow> string \<Rightarrow> string \<Rightarrow> nat" where
  "times_observed samples wrong right = count_list (all_observations samples) (wrong, right)"

definition position :: "(string \<times> string) list \<Rightarrow> string \<times> string \<Rightarrow> nat" where
  \<comment> \<open>how many observations come before the first one of the pair (all of them, if there is none)\<close>
  "position obs p = length (takeWhile (\<lambda>q. q \<noteq> p) obs)"

definition first_seen :: "sample list \<Rightarrow> string \<Rightarrow> string \<Rightarrow> nat" where
  "first_seen samples wrong right = position (all_observations samples) (wrong, right)"

definition corrected_sample :: "string \<Rightarrow> string \<Rightarrow> sample" where
  \<comment> \<open>a sample with the given OCR text and corrected text\<close>
  "corrected_sample ocr correct =
     \<lparr>id_of = Some ''sample_1'', timestamp = Some 1, ocr_text = Some ocr,
      corrected_text = Some correct, image_path = Some ''sample_1.jpg''\<rparr>"

definition teh_corpus :: "sample list" where
  \<comment> \<open>the two samples of the specification's second end-to-end example\<close>
  "teh_corpus = [corrected_sample ''teh cat sat'' ''the cat sat'',
                 corrected_sample ''teh dog ran'' ''the dog ran'']"

definition example_corpus :: "sample list" where
  \<comment> \<open>five samples: the two above, a price read with \<open>qq\<close>, and two that need no correction\<close>
  "example_corpus = teh_corpus @
     [corrected_sample ''cost 5.qq'' ''cost 5.99'',
      corrected_sample ''ok'' ''ok'',
      corrected_sample ''fine'' ''fine'']"

definition tie_corpus :: "sample list" where
  \<comment> \<open>four samples: one misread word, corrected twice to one word and twice to another\<close>
  "tie_corpus = [corrected_sample ''c1ose'' ''close'',
                 corrected_sample ''c1ose'' ''chose'',
                 corrected_sample ''c1ose'' ''chose'',
                 corrected_sample ''c1ose'' ''close'']"

definition l_corpus :: "sample list" where
  \<comment> \<open>five samples: a number read with a final \<open>l\<close>, and four that need no correction\<close>
  "l_corpus = [corrected_sample ''room 2l'' ''room 21'',
               corrected_sample ''ok'' ''ok'',
               corrected_sample ''fine'' ''fine'',
               corrected_sample ''exit'' ''exit'',
               corrected_sample ''open'' ''open'']"
section \<open>Notions for reasoning about the alignment\<close>

text \<open>
  \<open>common a b i j k\<close>: the \<open>k\<close> elements of \<open>a\<close> from \<open>i\<close> on and of \<open>b\<close> from \<open>j\<close>
  on are the same. \<open>csl\<close> is the length of the longest common run that ends at \<open>i\<close> and
  \<open>j\<close> and stays at or after \<open>alo\<close> and \<open>blo\<close>.
\<close>

definition common :: "'a list \<Rightarrow> 'a list \<Rightarrow> nat \<Rightarrow> nat \<Rightarrow> nat \<Rightarrow> bool" where
  "common a b i j k = (\<forall>t < k. a ! (i + t) = b ! (j + t))"

function csl :: "'a list \<Rightarrow> 'a list \<Rightarrow> nat \<Rightarrow> nat \<Rightarrow> nat \<Rightarrow> nat \<Rightarrow> nat" where
  "csl a b alo blo i j =
     (if alo \<le> i \<and> blo \<le> j \<and> a ! i = b ! j
      then (if i = 0 \<or> j = 0 then 1 else csl a b alo blo (i - 1) (j - 1) + 1)
      else 0)"
  by pat_completeness auto
termination
  by (relation "measure (\<lambda>(a, b, alo, blo, i, j). i)") auto

declare csl.simps [simp del]

definition take_cell :: "'a list \<Rightarrow> 'a list \<Rightarrow> nat \<Rightarrow> nat \<Rightarrow> nat \<times> nat \<Rightarrow> block \<Rightarrow> block" where
  \<comment> \<open>the update of the best block at one cell, in terms of the common run ending there\<close>
  "take_cell a b alo blo c best =
     (case c of (i, j) \<Rightarrow>
        let k = csl a b alo blo i j
        in if k > snd (snd best) then (i + 1 - k, j + 1 - k, k) else best)"

definition cells_row :: "'a list \<Rightarrow> 'a list \<Rightarrow> nat \<Rightarrow> nat \<Rightarrow> nat \<Rightarrow> (nat \<times> nat) list" where
  "cells_row a b blo bhi i =
     map (\<lambda>j. (i, j)) (filter (\<lambda>j. blo \<le> j \<and> j < bhi) (indices_of (a ! i) b))"

definition row :: "'a list \<Rightarrow> 'a list \<Rightarrow> nat \<Rightarrow> nat \<Rightarrow> nat \<Rightarrow> nat \<Rightarrow> nat \<Rightarrow> nat" where
  "row a b alo blo bhi i j = (if blo \<le> j \<and> j < bhi then csl a b alo blo i j else 0)"

definition row_before :: "'a list \<Rightarrow> 'a list \<Rightarrow> nat \<Rightarrow> nat \<Rightarrow> nat \<Rightarrow> nat \<Rightarrow> nat \<Rightarrow> nat" where
  "row_before a b alo blo bhi i = (if i = alo then (\<lambda>j. 0) else row a b alo blo bhi (i - 1))"

definition lexlt :: "nat \<times> nat \<Rightarrow> nat \<times> nat \<Rightarrow> bool" where
  "lexlt c c' = (fst c < fst c' \<or> (fst c = fst c' \<and> snd c < snd c'))"

definition all_cells :: "'a list \<Rightarrow> 'a list \<Rightarrow> nat \<Rightarrow> nat \<Rightarrow> nat \<Rightarrow> nat \<Rightarrow> (nat \<times> nat) list" where
  "all_cells a b alo ahi blo bhi = concat (map (cells_row a b blo bhi) [alo..<ahi])"

text \<open>
  The best block after a list of cells in increasing order: its size is the greatest
  common run that ends in one of them, and it comes from the first cell with that run.
\<close>

definition first_longest :: "'a list \<Rightarrow> 'a list \<Rightarrow> nat \<Rightarrow> nat \<Rightarrow> (nat \<times> nat) list \<Rightarrow> block \<Rightarrow> bool" where
  "first_longest a b alo blo cs best =
     (case best of (bi, bj, bs) \<Rightarrow>
        (\<forall>c \<in> set cs. csl a b alo blo (fst c) (snd c) \<le> bs) \<and>
        (bs = 0 \<longrightarrow> bi = alo \<and> bj = blo) \<and>
        (bs > 0 \<longrightarrow>
           (\<exists>c \<in> set cs. csl a b alo blo (fst c) (snd c) = bs \<and>
              bi = fst c + 1 - bs \<and> bj = snd c + 1 - bs \<and>
              (\<forall>c' \<in> set cs. csl a b alo blo (fst c') (snd c') = bs \<longrightarrow> c = c' \<or> lexlt c c'))))"

definition differ_at :: "'a list \<Rightarrow> 'a list \<Rightarrow> nat \<Rightarrow> bool" where
  \<comment> \<open>the sequences agree except at position \<open>p\<close>, and neither element at \<open>p\<close> occurs in
      the other sequence\<close>
  "differ_at a b p =
     (length a = length b \<and> p < length a \<and> (\<forall>t < length a. t \<noteq> p \<longrightarrow> a ! t = b ! t) \<and>
      a ! p \<notin> set b \<and> b ! p \<notin> set a)"

section \<open>The correction UI writes back only the corrected text\<close>

lemma load_all_faithful: "load_all st ps = Inr ls \<Longrightarrow> faithful st ls"
proof (induction ps arbitrary: ls)
  case Nil
  then show ?case by (simp add: faithful_def)
next
  case (Cons p ps)
  show ?case
  proof (cases "endswith p ''.json''")
    case False
    with Cons show ?thesis by simp
  next
    case True
    with Cons.prems obtain l ls' where
      l: "load_one st p = Inr l" and ls': "load_all st ps = Inr ls'" and eq: "ls = l # ls'"
      by (auto split: sum.splits)
    from l have "st (fst l) = Some (Json (snd l))"
      by (auto split: option.splits file_content.splits)
    with Cons.IH [OF ls'] eq show ?thesis
      by (auto simp: faithful_def)
  qed
qed

lemma load_samples_faithful: "load_samples st listing = Inr ls \<Longrightarrow> faithful st ls"
  by (auto simp: load_samples_def faithful_def split: sum.splits dest!: load_all_faithful)

lemma save_sample_other:
  "save_sample st l = (st', r) \<Longrightarrow> q \<noteq> fst l \<Longrightarrow> st' q = st q"
  by (auto simp: save_sample_def Let_def split: option.splits)

lemma save_sample_same:
  assumes "save_sample st (p, s\<lparr>corrected_text := Some c\<rparr>) = (st', r)"
      and "timestamp s \<noteq> None" "id_of s \<noteq> None" "ocr_text s \<noteq> None" "image_path s \<noteq> None"
  shows "r = None \<and> st' p = Some (Json (s\<lparr>corrected_text := Some c\<rparr>))"
  using assms by (auto simp: save_sample_def Let_def split: option.splits)

lemma timestamps_all: "timestamps ls = Inr u \<Longrightarrow> \<forall>(p, s) \<in> set ls. timestamp s \<noteq> None"
  by (induction ls rule: timestamps.induct) (auto split: option.splits)

lemma correct_loop_frame:
  assumes "faithful st0 ls"
      and "\<forall>(p, s) \<in> set ls. timestamp s \<noteq> None"
      and "\<forall>q. same_but_corrected (st0 q) (st q)"
      and "correct_loop st ls inputs = (st', r)"
  shows "same_but_corrected (st0 q) (st' q)"
  using assms
proof (induction ls arbitrary: st inputs)
  case Nil
  then show ?case by simp
next
  case (Cons l ls)
  obtain p s where l: "l = (p, s)" by (cases l)
  from Cons.prems(1) l have orig: "st0 p = Some (Json s)" and f: "faithful st0 ls"
    by (auto simp: faithful_def)
  from Cons.prems(2) l have ts: "timestamp s \<noteq> None" and tss: "\<forall>(p, s) \<in> set ls. timestamp s \<noteq> None"
    by auto
  have step: "same_but_corrected (st0 q) (st' q)"
    if sv: "save_sample st (p, s\<lparr>corrected_text := Some c\<rparr>) = (st1, r1)"
      and rest: "r1 = None \<longrightarrow> correct_loop st1 ls ins = (st', r)"
      and fail: "r1 \<noteq> None \<longrightarrow> st' = st1"
      and fields: "id_of s \<noteq> None" "ocr_text s \<noteq> None" "image_path s \<noteq> None"
    for c st1 r1 ins
  proof -
    from save_sample_same [OF sv ts fields]
    have r1: "r1 = None" and new: "st1 p = Some (Json (s\<lparr>corrected_text := Some c\<rparr>))" by auto
    have "\<forall>q. same_but_corrected (st0 q) (st1 q)"
    proof
      fix q'
      show "same_but_corrected (st0 q') (st1 q')"
      proof (cases "q' = p")
        case True
        with orig new show ?thesis by (simp add: same_but_corrected_def)
      next
        case False
        with save_sample_other [OF sv, of q'] Cons.prems(3) show ?thesis by simp
      qed
    qed
    with Cons.IH [OF f tss _ ] rest r1 show ?thesis by blast
  qed
  from Cons.prems(4) l show ?case
    apply (simp split: option.splits list.splits if_splits prod.splits add: Let_def)
    using Cons.prems(3) Cons.IH [OF f tss Cons.prems(3)] step
    by (auto split: option.splits)
qed

text \<open>
  C9. Whatever the user types, a run of the correction tool leaves every file of the
  store either untouched or holding a sample whose \<open>id\<close>, \<open>timestamp\<close>,
  \<open>ocr_text\<close> and \<open>image_path\<close> are those of the record loaded from it: only
  \<open>corrected_text\<close> may differ.
\<close>

theorem train_only_changes_corrected_text:
  "train_main st listing inputs = (st', r) \<Longrightarrow> same_but_corrected (st q) (st' q)"
proof -
  assume run: "train_main st listing inputs = (st', r)"
  show ?thesis
  proof (cases "load_samples st listing")
    case (Inl e)
    with run show ?thesis by (simp add: train_main_def same_but_corrected_def)
  next
    case (Inr ls)
    have f: "faithful st ls" by (rule load_samples_faithful [OF Inr])
    from Inr have ts: "\<forall>(p, s) \<in> set ls. timestamp s \<noteq> None"
      by (auto simp: load_samples_def split: sum.splits dest!: timestamps_all)
    have same: "\<forall>q. same_but_corrected (st q) (st q)" by (simp add: same_but_corrected_def)
    from run Inr have "correct_loop st ls inputs = (st', r)" by (simp add: train_main_def)
    from correct_loop_frame [OF f ts same this] show ?thesis .
  qed
qed

theorem train_only_changes_corrected_text_witness:
  "train_main
     [''s.json'' \<mapsto> Json \<lparr>id_of = Some ''sample_1'', timestamp = Some 1, ocr_text = Some ''teh cat'',
        corrected_text = Some ''teh cat'', image_path = Some ''s.jpg''\<rparr>]
     [''s.json''] ['' the cat'']
   = ([''s.json'' \<mapsto> Json \<lparr>id_of = Some ''sample_1'', timestamp = Some 1, ocr_text = Some ''teh cat'',
        corrected_text = Some ''the cat'', image_path = Some ''s.jpg''\<rparr>], None)
   \<and> same_but_corrected
     (Some (Json \<lparr>id_of = Some ''sample_1'', timestamp = Some 1, ocr_text = Some ''teh cat'',
        corrected_text = Some ''teh cat'', image_path = Some ''s.jpg''\<rparr>))
     (Some (Json \<lparr>id_of = Some ''sample_1'', timestamp = Some 1, ocr_text = Some ''teh cat'',
        corrected_text = Some ''the cat'', image_path = Some ''s.jpg''\<rparr>))"
proof -
  have run: "train_main
     [''s.json'' \<mapsto> Json \<lparr>id_of = Some ''sample_1'', timestamp = Some 1, ocr_text = Some ''teh cat'',
        corrected_text = Some ''teh cat'', image_path = Some ''s.jpg''\<rparr>]
     [''s.json''] ['' the cat'']
   = ([''s.json'' \<mapsto> Json \<lparr>id_of = Some ''sample_1'', timestamp = Some 1, ocr_text = Some ''teh cat'',
        corrected_text = Some ''the cat'', image_path = Some ''s.jpg''\<rparr>], None)"
    by (simp add: train_main_def load_samples_def endswith_def strip_def is_space_def code_def
          lower_def lower_char_def save_sample_def)
  from train_only_changes_corrected_text [OF run, of "''s.json''"] run show ?thesis by simp
qed

section \<open>Sample ids come from the clock\<close>

lemma digits_of_nonempty: "digits_of n \<noteq> []"
  by (subst digits_of.simps) simp

lemma digit_char_inj: "a < 10 \<Longrightarrow> b < 10 \<Longrightarrow> digit_char a = digit_char b \<Longrightarrow> a = b"
proof -
  assume a: "a < 10" and b: "b < 10" and eq: "digit_char a = digit_char b"
  from eq have "(of_char (char_of (48 + a) :: char) :: nat) = of_char (char_of (48 + b) :: char)"
    by (simp add: digit_char_def)
  with a b show "a = b" by simp
qed

lemma digits_of_inj: "digits_of m = digits_of n \<Longrightarrow> m = n"
proof (induction m arbitrary: n rule: digits_of.induct)
  case (1 m)
  show ?case
  proof (cases "m < 10")
    case True
    with "1.prems" have single: "digits_of n = [digit_char m]"
      by (subst (asm) digits_of.simps) simp
    have "n < 10"
    proof (rule ccontr)
      assume "\<not> n < 10"
      with single have "digits_of (n div 10) @ [digit_char (n mod 10)] = [digit_char m]"
        by (subst (asm) digits_of.simps) simp
      then show False using digits_of_nonempty [of "n div 10"] by simp
    qed
    with single have "digit_char n = digit_char m"
      by (subst (asm) digits_of.simps) simp
    with True \<open>n < 10\<close> show ?thesis by (auto dest: digit_char_inj)
  next
    case False
    with "1.prems" have long: "digits_of n = digits_of (m div 10) @ [digit_char (m mod 10)]"
      by (subst (asm) digits_of.simps) simp
    have "\<not> n < 10"
    proof
      assume "n < 10"
      with long have "[digit_char n] = digits_of (m div 10) @ [digit_char (m mod 10)]"
        by (subst (asm) digits_of.simps) simp
      then show False using digits_of_nonempty [of "m div 10"] by simp
    qed
    with long have "digits_of (n div 10) @ [digit_char (n mod 10)]
        = digits_of (m div 10) @ [digit_char (m mod 10)]"
      by (subst (asm) digits_of.simps) simp
    then have d: "digits_of (m div 10) = digits_of (n div 10)"
      and l: "digit_char (m mod 10) = digit_char (n mod 10)" by simp_all
    from "1.IH" [OF False d] have "m div 10 = n div 10" .
    moreover from l have "m mod 10 = n mod 10" by (rule digit_char_inj [rotated 2]) simp_all
    ultimately show ?thesis by (metis div_mult_mod_eq)
  qed
qed

lemma digits_of_no_minus: "hd (digits_of n) \<noteq> CHR ''-''"
proof (induction n rule: digits_of.induct)
  case (1 n)
  show ?case
  proof (cases "n < 10")
    case True
    have "(of_char (digit_char n) :: nat) = 48 + n" using True by (simp add: digit_char_def)
    then have "digit_char n \<noteq> CHR ''-''" by auto
    with True show ?thesis by (subst digits_of.simps) simp
  next
    case False
    with "1.IH" digits_of_nonempty [of "n div 10"] show ?thesis
      by (subst digits_of.simps) simp
  qed
qed

lemma str_int_inj: "str_int a = str_int b \<Longrightarrow> a = b"
proof -
  assume eq: "str_int a = str_int b"
  have neg: "CHR ''-'' # xs \<noteq> digits_of n" for xs n
    using digits_of_no_minus [of n] by (metis list.sel(1))
  show "a = b"
  proof (cases "a < 0")
    case a: True
    show ?thesis
    proof (cases "b < 0")
      case True
      with a eq have "nat (- a) = nat (- b)" by (simp add: str_int_def digits_of_inj)
      with a True show ?thesis by simp
    next
      case False
      with a eq neg show ?thesis by (simp add: str_int_def)
    qed
  next
    case a: False
    show ?thesis
    proof (cases "b < 0")
      case True
      with a eq neg [of "digits_of (nat (- b))" "nat a"] show ?thesis by (simp add: str_int_def)
    next
      case False
      with a eq have "nat a = nat b" by (simp add: str_int_def digits_of_inj)
      with a False show ?thesis by simp
    qed
  qed
qed

lemma sample_id_inj: "sample_id a = sample_id b \<Longrightarrow> a = b"
  by (simp add: sample_id_def str_int_inj)

lemma metadata_path_inj: "metadata_path a = metadata_path b \<Longrightarrow> a = b"
  by (simp add: metadata_path_def path_join_def sample_id_inj)

lemma metadata_not_image: "metadata_path a \<noteq> image_dest b"
proof
  assume "metadata_path a = image_dest b"
  then have "rev (sample_id a @ ''.json'') = rev (sample_id b @ ''.jpg'')"
    by (simp add: metadata_path_def image_dest_def path_join_def)
  then show False by simp
qed

lemma save_training_sample_True:
  "save_training_sample st now img ocr = (st', True) \<Longrightarrow>
     \<exists>c. st img = Some c \<and> img \<noteq> image_dest now \<and>
       st' = (st(image_dest now \<mapsto> c))(metadata_path now \<mapsto>
          Json \<lparr>id_of = Some (sample_id now), timestamp = Some now, ocr_text = Some ocr,
                corrected_text = Some ocr, image_path = Some (image_dest now)\<rparr>)"
  by (auto simp: save_training_sample_def cp_def Let_def split: option.splits if_splits)

text \<open>
  C8, as the code has it. Two invocations that read different clock seconds store
  records with different ids, and after both the store holds both records. (Within one
  clock second the id is the same and the later record replaces the earlier one.)
\<close>

theorem save_training_sample_distinct_seconds:
  assumes "t1 \<noteq> t2"
      and "save_training_sample st t1 img1 ocr1 = (st1, True)"
      and "save_training_sample st1 t2 img2 ocr2 = (st2, True)"
  shows "sample_id t1 \<noteq> sample_id t2 \<and>
         st2 (metadata_path t1) =
           Some (Json \<lparr>id_of = Some (sample_id t1), timestamp = Some t1, ocr_text = Some ocr1,
                       corrected_text = Some ocr1, image_path = Some (image_dest t1)\<rparr>) \<and>
         st2 (metadata_path t2) =
           Some (Json \<lparr>id_of = Some (sample_id t2), timestamp = Some t2, ocr_text = Some ocr2,
                       corrected_text = Some ocr2, image_path = Some (image_dest t2)\<rparr>)"
proof -
  from assms(1) have ids: "sample_id t1 \<noteq> sample_id t2"
    by (auto dest: sample_id_inj)
  from assms(1) have paths: "metadata_path t1 \<noteq> metadata_path t2"
    by (auto dest: metadata_path_inj)
  from save_training_sample_True [OF assms(2)] obtain c1 where
    st1: "st1 = (st(image_dest t1 \<mapsto> c1))(metadata_path t1 \<mapsto>
          Json \<lparr>id_of = Some (sample_id t1), timestamp = Some t1, ocr_text = Some ocr1,
                corrected_text = Some ocr1, image_path = Some (image_dest t1)\<rparr>)" by blast
  from save_training_sample_True [OF assms(3)] obtain c2 where
    st2: "st2 = (st1(image_dest t2 \<mapsto> c2))(metadata_path t2 \<mapsto>
          Json \<lparr>id_of = Some (sample_id t2), timestamp = Some t2, ocr_text = Some ocr2,
                corrected_text = Some ocr2, image_path = Some (image_dest t2)\<rparr>)" by blast
  from st1 st2 paths metadata_not_image [of t1 t2] have
    "st2 (metadata_path t1) =
       Some (Json \<lparr>id_of = Some (sample_id t1), timestamp = Some t1, ocr_text = Some ocr1,
                   corrected_text = Some ocr1, image_path = Some (image_dest t1)\<rparr>)"
    by simp
  moreover from st2 have
    "st2 (metadata_path t2) =
       Some (Json \<lparr>id_of = Some (sample_id t2), timestamp = Some t2, ocr_text = Some ocr2,
                   corrected_text = Some ocr2, image_path = Some (image_dest t2)\<rparr>)"
    by simp
  ultimately show ?thesis using ids by blast
qed

lemma sample_id_5: "sample_id 5 = ''sample_5''"
  by code_simp

lemma sample_id_6: "sample_id 6 = ''sample_6''"
  by code_simp

lemma save_at_5:
  "save_training_sample camera_only 5 ''/tmp/image.jpg'' ocr =
     (camera_only
        (''/home/admin/pi/corrections/training_data/sample_5.jpg'' \<mapsto> Image,
         ''/home/admin/pi/corrections/training_data/sample_5.json'' \<mapsto>
           Json \<lparr>id_of = Some ''sample_5'', timestamp = Some 5, ocr_text = Some ocr,
                 corrected_text = Some ocr,
                 image_path = Some ''/home/admin/pi/corrections/training_data/sample_5.jpg''\<rparr>),
      True)"
  by (simp add: save_training_sample_def cp_def camera_only_def image_dest_def metadata_path_def
        path_join_def TRAINING_DATA_DIR_def sample_id_5 Let_def)

theorem save_training_sample_distinct_seconds_witness:
  "(5::int) \<noteq> 6 \<and>
   snd (save_training_sample camera_only 5 ''/tmp/image.jpg'' ''teh cat'') \<and>
   snd (save_training_sample (fst (save_training_sample camera_only 5 ''/tmp/image.jpg'' ''teh cat''))
          6 ''/tmp/image.jpg'' ''teh dog'') \<and>
   sample_id 5 \<noteq> sample_id 6 \<and>
   fst (save_training_sample (fst (save_training_sample camera_only 5 ''/tmp/image.jpg'' ''teh cat''))
          6 ''/tmp/image.jpg'' ''teh dog'') (metadata_path 5) =
     Some (Json \<lparr>id_of = Some (sample_id 5), timestamp = Some 5, ocr_text = Some ''teh cat'',
                 corrected_text = Some ''teh cat'', image_path = Some (image_dest 5)\<rparr>)"
proof -
  have ne: "(5::int) \<noteq> 6" by simp
  obtain st1 where one: "save_training_sample camera_only 5 ''/tmp/image.jpg'' ''teh cat'' = (st1, True)"
    by (simp add: save_at_5)
  have img: "st1 ''/tmp/image.jpg'' = Some Image"
    using one unfolding save_at_5 by (auto simp: camera_only_def)
  have dest: "''/tmp/image.jpg'' \<noteq> image_dest 6"
    by (simp add: image_dest_def path_join_def TRAINING_DATA_DIR_def)
  obtain st2 where two: "save_training_sample st1 6 ''/tmp/image.jpg'' ''teh dog'' = (st2, True)"
    using img dest by (simp add: save_training_sample_def cp_def Let_def)
  from save_training_sample_distinct_seconds [OF ne one two] one two ne
  show ?thesis by simp
qed

text \<open>
  Two invocations within one clock second: both succeed, both records carry the id
  \<open>sample_5\<close>, and the store ends with the second record where the first one was.
\<close>

theorem save_training_sample_same_second_counterexample:
  "snd (save_training_sample camera_only 5 ''/tmp/image.jpg'' ''first'') \<and>
   fst (save_training_sample camera_only 5 ''/tmp/image.jpg'' ''first'')
       ''/home/admin/pi/corrections/training_data/sample_5.json'' =
     Some (Json \<lparr>id_of = Some ''sample_5'', timestamp = Some 5, ocr_text = Some ''first'',
                 corrected_text = Some ''first'',
                 image_path = Some ''/home/admin/pi/corrections/training_data/sample_5.jpg''\<rparr>) \<and>
   snd (save_training_sample (fst (save_training_sample camera_only 5 ''/tmp/image.jpg'' ''first''))
          5 ''/tmp/image.jpg'' ''second'') \<and>
   fst (save_training_sample (fst (save_training_sample camera_only 5 ''/tmp/image.jpg'' ''first''))
          5 ''/tmp/image.jpg'' ''second'')
       ''/home/admin/pi/corrections/training_data/sample_5.json'' =
     Some (Json \<lparr>id_of = Some ''sample_5'', timestamp = Some 5, ocr_text = Some ''second'',
                 corrected_text = Some ''second'',
                 image_path = Some ''/home/admin/pi/corrections/training_data/sample_5.jpg''\<rparr>)"
  by (simp add: save_at_5)
     (simp add: save_training_sample_def cp_def camera_only_def image_dest_def metadata_path_def
        path_join_def TRAINING_DATA_DIR_def sample_id_5 Let_def)

section \<open>The end-to-end normalization example\<close>

lemma cleanText_qq_run:
  "cleanText \<lparr>word_replacements = [], pattern_fixes = [qq_fix], context_corrections = []\<rparr> id
     ''Total $ 12.qq & 5O% off'' = ''Total 12.99 dollars and 5 0 percent off''"
  by code_simp

lemma cleanText_catalogue_run:
  "cleanText \<lparr>word_replacements = [], pattern_fixes = [qq_fix, dollar_O_fix, l_fix, O_fix],
              context_corrections = []\<rparr> id
     ''Total $ 12.qq & 5O% off'' = ''Total 12.99 dollars and 5 0 percent off''"
  by code_simp

text \<open>
  C1, as the code has it. With the learned rule for \<open>qq\<close> (alone, or with the three other
  rules of the catalogue) and no spellchecker, the pipeline turns the raw text
  \<open>Total $ 12.qq & 5O% off\<close> into \<open>Total 12.99 dollars and 5 0 percent off\<close>: the pass
  that rewrites a letter O after a digit writes a space before the zero.
\<close>

theorem cleanText_example:
  "cleanText \<lparr>word_replacements = [], pattern_fixes = [qq_fix], context_corrections = []\<rparr> id
     ''Total $ 12.qq & 5O% off'' = ''Total 12.99 dollars and 5 0 percent off'' \<and>
   cleanText \<lparr>word_replacements = [], pattern_fixes = [qq_fix, dollar_O_fix, l_fix, O_fix],
              context_corrections = []\<rparr> id
     ''Total $ 12.qq & 5O% off'' = ''Total 12.99 dollars and 5 0 percent off''"
  using cleanText_qq_run cleanText_catalogue_run by simp

text \<open>The text that the specification expects is not what the pipeline produces.\<close>

theorem cleanText_example_counterexample:
  "cleanText \<lparr>word_replacements = [], pattern_fixes = [qq_fix], context_corrections = []\<rparr> id
     ''Total $ 12.qq & 5O% off'' \<noteq> ''Total 12.99 dollars and 50 percent off''"
  using cleanText_qq_run by simp

section \<open>The applicator and rules that do not compile\<close>

lemma re_sub_bad_pattern: "re_compile p = Inl e \<Longrightarrow> re_sub p repl text = Inl e"
  by (simp add: re_sub_def)

lemma apply_pattern_fixes_bad:
  "f \<in> set fs \<Longrightarrow> re_compile (pattern f) = Inl e \<Longrightarrow> \<exists>e'. apply_pattern_fixes fs t = Inl e'"
proof (induction fs arbitrary: t)
  case Nil
  then show ?case by simp
next
  case (Cons g fs)
  show ?case
  proof (cases "re_sub (pattern g) (replacement g) t")
    case (Inl e')
    then show ?thesis by simp
  next
    case (Inr t')
    with Cons.prems have "f \<noteq> g" by (auto simp: re_sub_bad_pattern)
    with Cons.prems have "f \<in> set fs" by simp
    from Cons.IH [OF this Cons.prems(2), of t'] Inr show ?thesis by simp
  qed
qed

lemma cleanText_unchanged_on_error:
  "apply_learned_corrections R text' = Inl e \<Longrightarrow> basic_cleanup text = Inr text' \<Longrightarrow>
     cleanText R spellcheck text = text"
  by (simp add: cleanText_def clean_steps_def)

text \<open>
  C4, as the code has it. A \<open>pattern_fixes\<close> entry whose pattern is not a valid regular
  expression makes the whole pass fail, for every text: \<open>apply_learned_corrections\<close>
  raises instead of returning a text, and \<open>cleanText\<close>, which catches the exception,
  leaves the text as it was.
\<close>

theorem invalid_pattern_aborts_pass:
  assumes "f \<in> set (pattern_fixes R)"
      and "re_compile (pattern f) = Inl (Invalid msg)"
  shows "(\<exists>e. apply_learned_corrections R text = Inl e) \<and> cleanText R spellcheck text = text"
proof -
  have fails: "\<exists>e. apply_learned_corrections R t = Inl e" for t
  proof (cases "apply_word_replacements (word_replacements R) t")
    case (Inl e)
    then show ?thesis by (simp add: apply_learned_corrections_def LEARNING_ENABLED_def)
  next
    case (Inr t')
    with apply_pattern_fixes_bad [OF assms, of t'] show ?thesis
      by (simp add: apply_learned_corrections_def LEARNING_ENABLED_def)
  qed
  have "cleanText R spellcheck text = text"
  proof (cases "basic_cleanup text")
    case (Inl e)
    then show ?thesis by (simp add: cleanText_def clean_steps_def)
  next
    case (Inr t1)
    from fails [of t1] obtain e where "apply_learned_corrections R t1 = Inl e" by blast
    from cleanText_unchanged_on_error [OF this Inr] show ?thesis .
  qed
  with fails show ?thesis by blast
qed

definition unbalanced_fix :: pattern_fix where
  \<comment> \<open>a persisted entry whose pattern is an opening parenthesis alone\<close>
  "unbalanced_fix = \<lparr>pattern = ''('', replacement = ''x'', description = ''edited by hand''\<rparr>"

lemma unbalanced_invalid:
  "re_compile (pattern unbalanced_fix) = Inl (Invalid ''missing ), unterminated subpattern'')"
  by code_simp

theorem invalid_pattern_aborts_pass_witness:
  "unbalanced_fix \<in> set (pattern_fixes \<lparr>word_replacements = [], pattern_fixes = [unbalanced_fix, qq_fix],
        context_corrections = []\<rparr>) \<and>
   re_compile (pattern unbalanced_fix) = Inl (Invalid ''missing ), unterminated subpattern'') \<and>
   (\<exists>e. apply_learned_corrections \<lparr>word_replacements = [], pattern_fixes = [unbalanced_fix, qq_fix],
        context_corrections = []\<rparr> ''cost 5.qq'' = Inl e) \<and>
   cleanText \<lparr>word_replacements = [], pattern_fixes = [unbalanced_fix, qq_fix],
        context_corrections = []\<rparr> id ''cost 5.qq'' = ''cost 5.qq''"
proof -
  have m: "unbalanced_fix \<in> set (pattern_fixes \<lparr>word_replacements = [],
      pattern_fixes = [unbalanced_fix, qq_fix], context_corrections = []\<rparr>)" by simp
  from invalid_pattern_aborts_pass [OF m unbalanced_invalid, of "''cost 5.qq''" id]
    m unbalanced_invalid show ?thesis by blast
qed

text \<open>
  The rule set holds an invalid entry followed by the valid rule for \<open>qq\<close>. The pass
  raises; the valid rule, which alone would give \<open>cost 5.99\<close>, is not applied.
\<close>

lemma qq_alone:
  "apply_learned_corrections \<lparr>word_replacements = [], pattern_fixes = [qq_fix],
        context_corrections = []\<rparr> ''cost 5.qq'' = Inr ''cost 5.99''"
  by code_simp

theorem invalid_pattern_counterexample:
  "apply_learned_corrections \<lparr>word_replacements = [], pattern_fixes = [unbalanced_fix, qq_fix],
        context_corrections = []\<rparr> ''cost 5.qq'' = Inl (Invalid ''missing ), unterminated subpattern'')"
  by code_simp

section \<open>Applying the rule set twice\<close>

lemma parse_set_shorter: "parse_set acc ts = Inr (items, rest) \<Longrightarrow> length rest < length ts"
proof (induction ts arbitrary: acc items rest rule: length_induct)
  case (1 ts)
  note IH = "1.IH" [rule_format]
  show ?case
  proof (cases ts)
    case Nil
    with "1.prems" show ?thesis by simp
  next
    case ts: (Cons t ts')
    show ?thesis
    proof (cases "t = TChar (CHR '']'') \<and> acc \<noteq> []")
      case True
      with "1.prems" ts show ?thesis by auto
    next
      case False
      with "1.prems" ts obtain a where a: "set_atom t = Inr a"
        by (cases "set_atom t") auto
      show ?thesis
      proof (cases ts')
        case Nil
        with "1.prems" ts False a show ?thesis by simp
      next
        case ts': (Cons u us)
        show ?thesis
        proof (cases "u = TChar (CHR ''-'')")
          case dash: True
          show ?thesis
          proof (cases us)
            case Nil
            with "1.prems" ts ts' False a dash show ?thesis by simp
          next
            case us: (Cons v vs)
            show ?thesis
            proof (cases "v = TChar (CHR '']'')")
              case True
              with "1.prems" ts ts' us False a dash show ?thesis by auto
            next
              case nv: False
              with "1.prems" ts ts' us False a dash obtain b r where
                "parse_set (r # acc) vs = Inr (items, rest)"
                by (auto split: sum.splits)
              from IH [OF _ this] ts ts' us show ?thesis by simp
            qed
          qed
        next
          case nd: False
          with "1.prems" ts ts' False a have "parse_set (a # acc) (u # us) = Inr (items, rest)"
            by simp
          from IH [OF _ this] ts ts' show ?thesis by simp
        qed
      qed
    qed
  qed
qed










section \<open>Whole-word replacement and punctuation\<close>

text \<open>
  C7 at a failing input. The extractor keeps punctuation in its tokens, so \<open>teh,\<close> can
  be a learned key. The applicator looks for it between two word boundaries, and there is
  no word boundary between a comma and a space: in \<open>teh, dog\<close> the whole-word
  occurrence is not replaced, while inside the larger token \<open>teh,dog\<close> it is.
\<close>

theorem punctuated_word_not_replaced:
  "apply_learned_corrections \<lparr>word_replacements = [(''teh,'', ''the,'')], pattern_fixes = [],
      context_corrections = []\<rparr> ''teh, dog'' = Inr ''teh, dog'' \<and>
   apply_learned_corrections \<lparr>word_replacements = [(''teh,'', ''the,'')], pattern_fixes = [],
      context_corrections = []\<rparr> ''teh,dog'' = Inr ''the,dog''"
  by code_simp


section \<open>Dictionaries as association lists\<close>

lemma map_of_dict_set: "map_of (dict_set d k v) = (map_of d)(k \<mapsto> v)"
  by (induction d) (auto simp: fun_eq_iff)

lemma keys_dict_set: "fst ` set (dict_set d k v) = insert k (fst ` set d)"
proof (induction d)
  case Nil
  then show ?case by simp
next
  case (Cons p d)
  obtain k' v' where p: "p = (k', v')" by (cases p)
  show ?case
  proof (cases "k' = k")
    case True
    with p show ?thesis by simp
  next
    case False
    with p Cons show ?thesis by auto
  qed
qed

lemma distinct_dict_set: "distinct (map fst d) \<Longrightarrow> distinct (map fst (dict_set d k v))"
proof (induction d)
  case Nil
  then show ?case by simp
next
  case (Cons p d)
  have "fst ` set (dict_set d k v) = insert k (fst ` set d)" by (rule keys_dict_set)
  with Cons show ?case by (cases p) auto
qed

lemma dict_set_nonempty: "dict_set d k v \<noteq> []"
  by (cases d) (auto split: if_splits)

text \<open>An assignment keeps the order of the keys; a new key goes to the end.\<close>

lemma dict_set_old_key: "k \<in> fst ` set d \<Longrightarrow> map fst (dict_set d k v) = map fst d"
proof (induction d)
  case Nil
  then show ?case by simp
next
  case (Cons p d)
  obtain k' v' where p: "p = (k', v')" by (cases p)
  show ?case
  proof (cases "k' = k")
    case True
    with p show ?thesis by simp
  next
    case False
    with p Cons.prems have "k \<in> fst ` set d" by auto
    with Cons.IH p False show ?thesis by simp
  qed
qed

lemma dict_set_new_key: "k \<notin> fst ` set d \<Longrightarrow> dict_set d k v = d @ [(k, v)]"
proof (induction d)
  case Nil
  then show ?case by simp
next
  case (Cons p d)
  obtain k' v' where p: "p = (k', v')" by (cases p)
  from Cons.prems p have "k' \<noteq> k" and "k \<notin> fst ` set d" by auto
  with Cons.IH p show ?case by simp
qed

section \<open>Where a pair is first observed\<close>

lemma position_append: "p \<in> set obs \<Longrightarrow> position (obs @ ps) p = position obs p"
  by (simp add: position_def takeWhile_append1)

lemma position_less: "p \<in> set obs \<Longrightarrow> position obs p < length obs"
  by (induction obs) (auto simp: position_def)

lemma position_new: "p \<notin> set obs \<Longrightarrow> position (obs @ [p]) p = length obs"
proof -
  assume "p \<notin> set obs"
  then have "takeWhile (\<lambda>q. q \<noteq> p) (obs @ [p]) = obs @ takeWhile (\<lambda>q. q \<noteq> p) [p]"
    by (intro takeWhile_append2) auto
  then show ?thesis by (simp add: position_def)
qed

lemma observed_iff: "count_list obs p \<noteq> 0 \<longleftrightarrow> p \<in> set obs"
  by (simp add: count_list_0_iff)

section \<open>The frequency table counts the observations\<close>

text \<open>
  \<open>tallied obs w rights\<close>: the dictionary \<open>rights\<close> holds, for the wrong word \<open>w\<close>, each
  replacement observed in \<open>obs\<close> with the number of its observations, in the order in
  which the replacements were first observed.
\<close>

definition tallied :: "(string \<times> string) list \<Rightarrow> string \<Rightarrow> (string \<times> nat) list \<Rightarrow> bool" where
  "tallied obs w rights =
     (distinct (map fst rights) \<and>
      sorted_wrt (\<lambda>a b. position obs (w, a) < position obs (w, b)) (map fst rights) \<and>
      (\<forall>r. map_of rights r =
         (if count_list obs (w, r) = 0 then None else Some (count_list obs (w, r)))))"

definition counted :: "word_changes \<Rightarrow> (string \<times> string) list \<Rightarrow> bool" where
  "counted wc obs =
     (distinct (map fst wc) \<and>
      (\<forall>w. case map_of wc w of
             None \<Rightarrow> \<forall>r. count_list obs (w, r) = 0
           | Some rights \<Rightarrow> rights \<noteq> [] \<and> tallied obs w rights))"

lemma counted_empty: "counted [] []"
  by (simp add: counted_def)

lemma tallied_empty: "\<forall>r. count_list obs (w, r) = 0 \<Longrightarrow> tallied obs w []"
  by (simp add: tallied_def)

lemma tallied_count:
  "tallied obs w rights \<Longrightarrow>
   map_of rights r = (if count_list obs (w, r) = 0 then None else Some (count_list obs (w, r)))"
  by (simp add: tallied_def)

lemma tallied_keys:
  assumes "tallied obs w rights"
  shows "r \<in> fst ` set rights \<longleftrightarrow> (w, r) \<in> set obs"
proof -
  have "r \<in> fst ` set rights \<longleftrightarrow> map_of rights r \<noteq> None"
    by (simp add: map_of_eq_None_iff)
  also have "\<dots> \<longleftrightarrow> count_list obs (w, r) \<noteq> 0"
    by (simp add: tallied_count [OF assms])
  also have "\<dots> \<longleftrightarrow> (w, r) \<in> set obs" by (rule observed_iff)
  finally show ?thesis .
qed

lemma tallied_order_append:
  assumes "tallied obs w rights"
  shows "sorted_wrt (\<lambda>a b. position (obs @ ps) (w, a) < position (obs @ ps) (w, b))
           (map fst rights)"
proof -
  from assms have s: "sorted_wrt (\<lambda>a b. position obs (w, a) < position obs (w, b))
      (map fst rights)" by (simp add: tallied_def)
  have keys: "(w, a) \<in> set obs" if "a \<in> set (map fst rights)" for a
    using that tallied_keys [OF assms, of a] by simp
  show ?thesis
  proof (rule sorted_wrt_mono_rel [OF _ s])
    fix a b
    assume "a \<in> set (map fst rights)" and "b \<in> set (map fst rights)"
      and "position obs (w, a) < position obs (w, b)"
    with keys show "position (obs @ ps) (w, a) < position (obs @ ps) (w, b)"
      by (simp add: position_append)
  qed
qed

lemma tallied_other:
  assumes "tallied obs w rights" and "fst p \<noteq> w"
  shows "tallied (obs @ [p]) w rights"
proof -
  from assms(2) have c: "count_list (obs @ [p]) (w, r) = count_list obs (w, r)" for r
    by (cases p) auto
  from assms(1) have "distinct (map fst rights)"
    and "\<forall>r. map_of rights r =
           (if count_list obs (w, r) = 0 then None else Some (count_list obs (w, r)))"
    by (simp_all add: tallied_def)
  with tallied_order_append [OF assms(1), of "[p]"] show ?thesis
    unfolding tallied_def c by blast
qed

lemma tallied_bump:
  assumes "tallied obs w rights"
  shows "tallied (obs @ [(w, r)]) w (dict_set rights r (count_list obs (w, r) + 1))"
proof -
  let ?n = "count_list obs (w, r)"
  let ?obs = "obs @ [(w, r)]"
  let ?rights = "dict_set rights r (?n + 1)"
  from assms have d: "distinct (map fst rights)" by (simp add: tallied_def)
  have d': "distinct (map fst ?rights)" using d by (rule distinct_dict_set)
  have c: "map_of ?rights r' =
      (if count_list ?obs (w, r') = 0 then None else Some (count_list ?obs (w, r')))" for r'
    using tallied_count [OF assms, of r'] by (simp add: map_of_dict_set)
  have s: "sorted_wrt (\<lambda>a b. position ?obs (w, a) < position ?obs (w, b)) (map fst ?rights)"
  proof (cases "r \<in> fst ` set rights")
    case True
    then have "map fst ?rights = map fst rights" by (rule dict_set_old_key)
    with tallied_order_append [OF assms, of "[(w, r)]"] show ?thesis by simp
  next
    case False
    then have shape: "map fst ?rights = map fst rights @ [r]" by (simp add: dict_set_new_key)
    from False have new: "(w, r) \<notin> set obs" by (simp add: tallied_keys [OF assms])
    have last: "position ?obs (w, a) < position ?obs (w, r)" if "a \<in> set (map fst rights)" for a
    proof -
      from that have "(w, a) \<in> set obs" using tallied_keys [OF assms, of a] by simp
      then have "position ?obs (w, a) < length obs"
        by (simp add: position_append position_less)
      with new show ?thesis by (simp add: position_new)
    qed
    from tallied_order_append [OF assms, of "[(w, r)]"] last show ?thesis
      unfolding shape by (simp add: sorted_wrt_append)
  qed
  from d' s c show ?thesis by (simp add: tallied_def)
qed

lemma counted_bump:
  assumes "counted wc obs"
  shows "counted (bump wc p) (obs @ [p])"
proof -
  obtain wrong right where p: "p = (wrong, right)" by (cases p)
  define rights where "rights = (case map_of wc wrong of None \<Rightarrow> [] | Some r \<Rightarrow> r)"
  define n where "n = (case map_of rights right of None \<Rightarrow> 0 | Some n \<Rightarrow> n)"
  have b: "bump wc p = dict_set wc wrong (dict_set rights right (n + 1))"
    by (simp add: bump_def p rights_def n_def Let_def)
  from assms have d: "distinct (map fst wc)" by (simp add: counted_def)
  have inv: "case map_of wc w of
             None \<Rightarrow> \<forall>r. count_list obs (w, r) = 0
           | Some rights \<Rightarrow> rights \<noteq> [] \<and> tallied obs w rights" for w
    using assms by (simp add: counted_def)
  have t: "tallied obs wrong rights"
    using inv [of wrong] by (auto simp: rights_def tallied_empty split: option.splits)
  have n: "n = count_list obs (wrong, right)"
    using tallied_count [OF t, of right] by (auto simp: n_def split: if_splits)
  show ?thesis
    unfolding counted_def
  proof (intro conjI allI)
    show "distinct (map fst (bump wc p))" using d by (simp add: b distinct_dict_set)
  next
    fix w
    show "case map_of (bump wc p) w of
             None \<Rightarrow> \<forall>r. count_list (obs @ [p]) (w, r) = 0
           | Some rights \<Rightarrow> rights \<noteq> [] \<and> tallied (obs @ [p]) w rights"
    proof (cases "w = wrong")
      case True
      have "map_of (bump wc p) w = Some (dict_set rights right (n + 1))"
        using True by (simp add: b map_of_dict_set)
      moreover have "dict_set rights right (n + 1) \<noteq> []" by (rule dict_set_nonempty)
      moreover have "tallied (obs @ [p]) w (dict_set rights right (n + 1))"
        using tallied_bump [OF t, of right] by (simp add: True p n)
      ultimately show ?thesis by simp
    next
      case False
      then have same: "map_of (bump wc p) w = map_of wc w" by (simp add: b map_of_dict_set)
      from False have other: "fst p \<noteq> w" by (simp add: p)
      show ?thesis
      proof (cases "map_of wc w")
        case None
        with inv [of w] same False show ?thesis by (simp add: p)
      next
        case (Some rights')
        with inv [of w] have "rights' \<noteq> []" and "tallied obs w rights'" by simp_all
        with tallied_other [OF _ other] same Some show ?thesis by simp
      qed
    qed
  qed
qed

lemma counted_fold: "counted wc obs \<Longrightarrow> counted (fold (\<lambda>p wc'. bump wc' p) ps wc) (obs @ ps)"
proof (induction ps arbitrary: wc obs)
  case Nil
  then show ?case by simp
next
  case (Cons p ps)
  from Cons.IH [OF counted_bump [OF Cons.prems, of p]] show ?case by simp
qed

lemma analyze_from_fold:
  "analyze_from wc samples = fold (\<lambda>p wc'. bump wc' p) (all_observations samples) wc"
  by (induction samples arbitrary: wc) (simp_all add: all_observations_def)

lemma counted_analyze: "counted (analyze_corrections samples) (all_observations samples)"
  using counted_fold [OF counted_empty, of "all_observations samples"]
  by (simp add: analyze_corrections_def analyze_from_fold)


section \<open>Choosing the replacement\<close>

text \<open>
  The scan returns the first item with the greatest count: the items before it have a
  smaller count, the items after it have no greater one.
\<close>

lemma max_from_first:
  "\<exists>ys zs. best # xs = ys @ max_from best xs # zs \<and>
     (\<forall>y \<in> set ys. snd y < snd (max_from best xs)) \<and>
     (\<forall>z \<in> set zs. snd z \<le> snd (max_from best xs))"
proof (induction xs arbitrary: best)
  case Nil
  have "[best] = [] @ best # []" by simp
  then show ?case by fastforce
next
  case (Cons x xs)
  show ?case
  proof (cases "snd x > snd best")
    case True
    define m where "m = max_from x xs"
    from True have step: "max_from best (x # xs) = m" by (simp add: m_def)
    from Cons.IH [of x] obtain ys zs where
      shape: "x # xs = ys @ m # zs" and before: "\<forall>y \<in> set ys. snd y < snd m"
      and after: "\<forall>z \<in> set zs. snd z \<le> snd m"
      unfolding m_def by blast
    have "x \<in> set (ys @ m # zs)" unfolding shape [symmetric] by simp
    with before after have "snd x \<le> snd m" by (auto intro: less_imp_le)
    with True have "snd best < snd m" by simp
    with before have before': "\<forall>y \<in> set (best # ys). snd y < snd m" by simp
    from shape have "best # x # xs = (best # ys) @ m # zs" by simp
    with before' after show ?thesis unfolding step by blast
  next
    case False
    define m where "m = max_from best xs"
    from False have step: "max_from best (x # xs) = m" by (simp add: m_def)
    from Cons.IH [of best] obtain ys zs where
      shape: "best # xs = ys @ m # zs" and before: "\<forall>y \<in> set ys. snd y < snd m"
      and after: "\<forall>z \<in> set zs. snd z \<le> snd m"
      unfolding m_def by blast
    show ?thesis
    proof (cases ys)
      case Nil
      with shape have "best = m" and "xs = zs" by simp_all
      with False after have "best # x # xs = [] @ m # (x # zs)"
        and "\<forall>z \<in> set (x # zs). snd z \<le> snd m" by auto
      then show ?thesis unfolding step by fastforce
    next
      case (Cons b ys')
      with shape have "b = best" and xs: "xs = ys' @ m # zs" by simp_all
      with before Cons have "snd best < snd m" and "\<forall>y \<in> set ys'. snd y < snd m" by simp_all
      with False have "\<forall>y \<in> set (best # x # ys'). snd y < snd m" by auto
      moreover from xs have "best # x # xs = (best # x # ys') @ m # zs" by simp
      ultimately show ?thesis using after unfolding step by blast
    qed
  qed
qed

lemma most_common_spec:
  assumes "rights \<noteq> []"
  obtains r n ys zs where "most_common rights = Some (r, n)"
    and "rights = ys @ (r, n) # zs"
    and "\<forall>y \<in> set ys. snd y < n" and "\<forall>z \<in> set zs. snd z \<le> n"
proof -
  from assms obtain x xs where rights: "rights = x # xs" by (cases rights) auto
  obtain r n where m: "max_from x xs = (r, n)" by (cases "max_from x xs")
  from max_from_first [of x xs] m rights obtain ys zs where
    "rights = ys @ (r, n) # zs" "\<forall>y \<in> set ys. snd y < n" "\<forall>z \<in> set zs. snd z \<le> n"
    by auto
  moreover from rights m have "most_common rights = Some (r, n)" by (simp add: most_common_def)
  ultimately show ?thesis using that by blast
qed

text \<open>
  Over a table in which every word has a non-empty dictionary of replacements, the loop
  ends without an exception; a word of the table becomes a key exactly when its best
  count is at least 2, and other keys stay as they were.
\<close>

lemma replacements_from_spec:
  assumes "distinct (map fst wc)" and "\<forall>(w, rights) \<in> set wc. rights \<noteq> []"
  shows "snd (replacements_from learned wc) = None \<and>
         (\<forall>w. map_of (fst (replacements_from learned wc)) w =
            (case map_of wc w of
               None \<Rightarrow> map_of learned w
             | Some rights \<Rightarrow>
                 (case most_common rights of
                    None \<Rightarrow> map_of learned w
                  | Some (r, n) \<Rightarrow> if n \<ge> 2 then Some r else map_of learned w)))"
  using assms
proof (induction wc arbitrary: learned)
  case Nil
  then show ?case by simp
next
  case (Cons p wc)
  obtain wrong rights where p: "p = (wrong, rights)" by (cases p)
  from Cons.prems p have ne: "rights \<noteq> []" and d: "distinct (map fst wc)"
    and rest: "\<forall>(w, rights) \<in> set wc. rights \<noteq> []" and fresh: "wrong \<notin> fst ` set wc"
    by auto
  from fresh have none: "map_of wc wrong = None" by (simp add: map_of_eq_None_iff)
  from ne obtain r n where mc: "most_common rights = Some (r, n)" by (rule most_common_spec)
  show ?case
  proof (cases "n \<ge> 2")
    case True
    with p mc have step: "replacements_from learned (p # wc) =
        replacements_from (dict_set learned wrong r) wc" by simp
    from Cons.IH [OF d rest, of "dict_set learned wrong r"] none mc True p show ?thesis
      unfolding step by (auto simp: map_of_dict_set split: option.splits)
  next
    case False
    with p mc have step: "replacements_from learned (p # wc) = replacements_from learned wc"
      by simp
    from Cons.IH [OF d rest, of learned] none mc False p show ?thesis
      unfolding step by (auto split: option.splits)
  qed
qed

lemma counted_nonempty: "counted wc obs \<Longrightarrow> \<forall>(w, rights) \<in> set wc. rights \<noteq> []"
proof (clarify)
  fix w assume c: "counted wc obs" and "(w, []) \<in> set wc"
  with c have "map_of wc w = Some []" by (simp add: counted_def)
  with c show False by (auto simp: counted_def dest!: spec [of _ w])
qed

text \<open>
  Over a counted table: the loop ends without an exception, whatever the dictionary it
  starts from; the keys it sets are those it sets in an empty dictionary, and the other
  keys stay.
\<close>

lemma replacements_onto:
  assumes "counted wc obs"
  shows "snd (replacements_from learned wc) = None"
    and "map_of (fst (replacements_from learned wc)) w =
         (case map_of (fst (replacements_from [] wc)) w of
            None \<Rightarrow> map_of learned w
          | Some r \<Rightarrow> Some r)"
proof -
  from assms have d: "distinct (map fst wc)" by (simp add: counted_def)
  note spec = replacements_from_spec [OF d counted_nonempty [OF assms]]
  from spec [of learned] show "snd (replacements_from learned wc) = None" by blast
  from spec [of learned] have a: "map_of (fst (replacements_from learned wc)) w =
            (case map_of wc w of
               None \<Rightarrow> map_of learned w
             | Some rights \<Rightarrow>
                 (case most_common rights of
                    None \<Rightarrow> map_of learned w
                  | Some (r, n) \<Rightarrow> if n \<ge> 2 then Some r else map_of learned w))" by blast
  from spec [of "[]"] have b: "map_of (fst (replacements_from [] wc)) w =
            (case map_of wc w of
               None \<Rightarrow> None
             | Some rights \<Rightarrow>
                 (case most_common rights of
                    None \<Rightarrow> None
                  | Some (r, n) \<Rightarrow> if n \<ge> 2 then Some r else None))"
    by (auto split: option.splits)
  show "map_of (fst (replacements_from learned wc)) w =
         (case map_of (fst (replacements_from [] wc)) w of
            None \<Rightarrow> map_of learned w
          | Some r \<Rightarrow> Some r)"
    unfolding a b by (auto split: option.splits)
qed

text \<open>
  Over a counted table: a word is a key exactly when one of its replacements was
  observed twice; its value was observed at least twice, no replacement of the word more
  often, and those observed as often were first observed later.
\<close>

lemma replacements_counted:
  assumes "counted wc obs"
  shows "snd (replacements_from [] wc) = None"
    and "(\<exists>right. map_of (fst (replacements_from [] wc)) wrong = Some right) \<longleftrightarrow>
         (\<exists>r. 2 \<le> count_list obs (wrong, r))"
    and "map_of (fst (replacements_from [] wc)) wrong = Some right \<Longrightarrow>
         2 \<le> count_list obs (wrong, right) \<and>
         (\<forall>r. count_list obs (wrong, r) \<le> count_list obs (wrong, right)) \<and>
         (\<forall>r. r \<noteq> right \<and> count_list obs (wrong, r) = count_list obs (wrong, right) \<longrightarrow>
              position obs (wrong, right) < position obs (wrong, r))"
proof -
  from assms have d: "distinct (map fst wc)" by (simp add: counted_def)
  note spec = replacements_from_spec [OF d counted_nonempty [OF assms], of "[]"]
  from spec show "snd (replacements_from [] wc) = None" by blast
  from spec have m: "map_of (fst (replacements_from [] wc)) wrong =
            (case map_of wc wrong of
               None \<Rightarrow> None
             | Some rights \<Rightarrow>
                 (case most_common rights of
                    None \<Rightarrow> None
                  | Some (r, n) \<Rightarrow> if n \<ge> 2 then Some r else None))"
    by (auto split: option.splits)
  have inv: "case map_of wc wrong of
             None \<Rightarrow> \<forall>r. count_list obs (wrong, r) = 0
           | Some rights \<Rightarrow> rights \<noteq> [] \<and> tallied obs wrong rights"
    using assms by (simp add: counted_def)
  have both: "((\<exists>right. map_of (fst (replacements_from [] wc)) wrong = Some right) \<longleftrightarrow>
         (\<exists>r. 2 \<le> count_list obs (wrong, r))) \<and>
        (map_of (fst (replacements_from [] wc)) wrong = Some right \<longrightarrow>
         2 \<le> count_list obs (wrong, right) \<and>
         (\<forall>r. count_list obs (wrong, r) \<le> count_list obs (wrong, right)) \<and>
         (\<forall>r. r \<noteq> right \<and> count_list obs (wrong, r) = count_list obs (wrong, right) \<longrightarrow>
              position obs (wrong, right) < position obs (wrong, r)))"
  proof (cases "map_of wc wrong")
    case None
    with inv m show ?thesis by simp
  next
    case (Some rights)
    with inv have ne: "rights \<noteq> []" and t: "tallied obs wrong rights" by simp_all
    from t have rd: "distinct (map fst rights)"
      and ord: "sorted_wrt (\<lambda>a b. position obs (wrong, a) < position obs (wrong, b))
                  (map fst rights)" by (simp_all add: tallied_def)
    note rc = tallied_count [OF t]
    from ne obtain r n ys zs where mc: "most_common rights = Some (r, n)"
      and shape: "rights = ys @ (r, n) # zs"
      and before: "\<forall>y \<in> set ys. snd y < n" and after: "\<forall>z \<in> set zs. snd z \<le> n"
      by (rule most_common_spec)
    from shape have mem: "(r, n) \<in> set rights" by simp
    from before after shape have mx: "\<forall>x \<in> set rights. snd x \<le> n"
      by (auto intro: less_imp_le)
    from mem rd have "map_of rights r = Some n" by simp
    with rc [of r] have n: "n = count_list obs (wrong, r)" by (auto split: if_splits)
    have le: "count_list obs (wrong, r') \<le> n" for r'
    proof (cases "count_list obs (wrong, r') = 0")
      case True
      then show ?thesis by simp
    next
      case False
      with rc [of r'] have "map_of rights r' = Some (count_list obs (wrong, r'))" by simp
      then have "(r', count_list obs (wrong, r')) \<in> set rights" by (rule map_of_SomeD)
      with mx show ?thesis by auto
    qed
    have first: "position obs (wrong, r) < position obs (wrong, r')"
      if "r' \<noteq> r" and "count_list obs (wrong, r') = n" and "2 \<le> n" for r'
    proof -
      from that rc [of r'] have "map_of rights r' = Some n" by simp
      then have "(r', n) \<in> set rights" by (rule map_of_SomeD)
      with shape before that(1) have "(r', n) \<in> set zs" by auto
      then have "r' \<in> set (map fst zs)" by force
      moreover from ord shape
      have "\<forall>b \<in> set (map fst zs). position obs (wrong, r) < position obs (wrong, b)"
        by (simp add: sorted_wrt_append)
      ultimately show ?thesis by blast
    qed
    from m Some mc have res: "map_of (fst (replacements_from [] wc)) wrong =
        (if n \<ge> 2 then Some r else None)" by simp
    show ?thesis
    proof (cases "n \<ge> 2")
      case True
      with res n le first show ?thesis by auto
    next
      case False
      with res le show ?thesis by (auto simp: not_le dest: le_less_trans)
    qed
  qed
  from both show "(\<exists>right. map_of (fst (replacements_from [] wc)) wrong = Some right) \<longleftrightarrow>
         (\<exists>r. 2 \<le> count_list obs (wrong, r))" by blast
  from both show "map_of (fst (replacements_from [] wc)) wrong = Some right \<Longrightarrow>
         2 \<le> count_list obs (wrong, right) \<and>
         (\<forall>r. count_list obs (wrong, r) \<le> count_list obs (wrong, right)) \<and>
         (\<forall>r. r \<noteq> right \<and> count_list obs (wrong, r) = count_list obs (wrong, right) \<longrightarrow>
              position obs (wrong, right) < position obs (wrong, r))" by blast
qed

lemma learn_total:
  "learn samples = Inr \<lparr>word_replacements = fst (replacements_from [] (analyze_corrections samples)),
       pattern_fixes =
         (if any_sample qq_evidence samples then [qq_fix] else []) @
         (if any_sample (\<lambda>ocr correct. dollar_O_evidence ocr) samples then [dollar_O_fix] else []) @
         (if any_sample l_evidence samples then [l_fix] else []) @
         (if any_sample O_evidence samples then [O_fix] else []),
       context_corrections = []\<rparr>"
  using replacements_counted(1) [OF counted_analyze, of samples]
  by (cases "replacements_from [] (analyze_corrections samples)")
     (simp add: learn_def create_learned_corrections_def)

lemma analyze_strict_eq:
  "analyze_strict wc samples = Inr wc' \<Longrightarrow> wc' = analyze_from wc samples"
proof (induction samples arbitrary: wc)
  case Nil
  then show ?case by simp
next
  case (Cons s samples)
  from Cons.prems obtain ocr correct where
    "ocr_text s = Some ocr" "corrected_text s = Some correct"
    by (auto split: option.splits)
  with Cons show ?case by (simp add: get_text_def)
qed

lemma analyze_strict_total:
  "\<forall>s \<in> set samples. ocr_text s \<noteq> None \<and> corrected_text s \<noteq> None \<Longrightarrow>
     \<exists>wc'. analyze_strict wc samples = Inr wc'"
  by (induction samples arbitrary: wc) auto

text \<open>
  With five samples or more that all have both texts, \<open>learn_from_corrections\<close> runs to
  its end, whatever the rule set was before.
\<close>

lemma learn_from_corrections_run:
  assumes "5 \<le> length samples"
      and "\<forall>s \<in> set samples. ocr_text s \<noteq> None \<and> corrected_text s \<noteq> None"
  shows "learn_from_corrections prior samples =
     (prior\<lparr>word_replacements :=
               fst (replacements_from (word_replacements prior) (analyze_corrections samples)),
            pattern_fixes :=
              (if any_sample qq_evidence samples then [qq_fix] else []) @
              (if any_sample (\<lambda>ocr correct. dollar_O_evidence ocr) samples
               then [dollar_O_fix] else []) @
              (if any_sample l_evidence_pp6 samples then [l_fix] else [])\<rparr>,
      True)"
proof -
  from analyze_strict_total [OF assms(2), of "[]"] obtain wc where
    wc: "analyze_strict [] samples = Inr wc" by blast
  from analyze_strict_eq [OF wc] have eq: "wc = analyze_corrections samples"
    by (simp add: analyze_corrections_def)
  note none = replacements_onto(1) [OF counted_analyze, of "word_replacements prior" samples]
  obtain wr where wr: "replacements_from (word_replacements prior) (analyze_corrections samples) =
      (wr, None)"
    using none by (cases "replacements_from (word_replacements prior) (analyze_corrections samples)") auto
  from assms(1) wc eq wr show ?thesis by (simp add: learn_from_corrections_def)
qed

lemma learn_from_corrections_fixes:
  assumes "learn_from_corrections prior samples = (lc, True)"
  shows "pattern_fixes lc =
         (if any_sample qq_evidence samples then [qq_fix] else []) @
         (if any_sample (\<lambda>ocr correct. dollar_O_evidence ocr) samples then [dollar_O_fix] else []) @
         (if any_sample l_evidence_pp6 samples then [l_fix] else [])"
  using assms
  by (auto simp: learn_from_corrections_def split: if_splits sum.splits prod.splits option.splits)

section \<open>The synthesizers on an example corpus\<close>

lemma example_learn:
  "learn example_corpus = Inr \<lparr>word_replacements = [(''teh'', ''the'')], pattern_fixes = [qq_fix],
      context_corrections = []\<rparr>"
  by code_simp


lemma example_observations:
  "all_observations example_corpus = [(''teh'', ''the''), (''teh'', ''the''), (''5.qq'', ''5.99'')]"
  by code_simp

lemma example_run:
  "learn_from_corrections initial_corrections example_corpus =
     (\<lparr>word_replacements = [(''teh'', ''the'')], pattern_fixes = [qq_fix],
       context_corrections = []\<rparr>, True)"
  by code_simp

lemma tie_observations:
  "all_observations tie_corpus =
     [(''c1ose'', ''close''), (''c1ose'', ''chose''), (''c1ose'', ''chose''), (''c1ose'', ''close'')]"
  by code_simp

lemma tie_learn:
  "learn tie_corpus = Inr \<lparr>word_replacements = [(''c1ose'', ''close'')], pattern_fixes = [],
      context_corrections = []\<rparr>"
  by code_simp

section \<open>The threshold on word replacements\<close>

text \<open>
  One misread word corrected twice to \<open>close\<close> and twice to \<open>chose\<close>, in the order
  close, chose, chose, close: the pair with \<open>chose\<close> is observed exactly twice, and
  \<open>learn.py\<close> keeps the pair with \<open>close\<close> only, the first of the two in the scan for
  the maximum. \<open>learn_from_corrections\<close> of \<open>pp6.py\<close>, which wants five samples, keeps
  neither pair.
\<close>

theorem pair_observed_twice_absent_counterexample:
  "times_observed tie_corpus ''c1ose'' ''chose'' = 2 \<and>
   learn tie_corpus = Inr \<lparr>word_replacements = [(''c1ose'', ''close'')], pattern_fixes = [],
      context_corrections = []\<rparr> \<and>
   learn_from_corrections initial_corrections tie_corpus = (initial_corrections, False)"
  by code_simp

text \<open>
  C2, as the code has it. For every corpus and every wrong word, \<open>learn.py\<close> synthesizes
  a rule set whose \<open>word_replacements\<close> has the word as a key exactly when the highest
  count among its observed replacements is at least 2. The word maps to a replacement
  exactly when that replacement was observed at least twice, no replacement of the word
  was observed more often, and every other replacement observed as often was first
  observed later. So a pair observed exactly once is absent, and a pair observed twice or
  more is present when every other replacement of its wrong word was observed less
  often. \<open>learn_from_corrections\<close> of \<open>pp6.py\<close> learns nothing from fewer than five
  samples; from five or more that all have both texts it succeeds and gives the word
  the same entry, or leaves the word as its rule set had it before when \<open>learn.py\<close>
  gives it no entry.
\<close>

theorem word_replacements_threshold:
  "\<exists>lc. learn samples = Inr lc \<and>
     ((\<exists>right. map_of (word_replacements lc) wrong = Some right) \<longleftrightarrow>
        (\<exists>r. 2 \<le> times_observed samples wrong r)) \<and>
     (\<forall>right. map_of (word_replacements lc) wrong = Some right \<longleftrightarrow>
        2 \<le> times_observed samples wrong right \<and>
        (\<forall>r. times_observed samples wrong r \<le> times_observed samples wrong right) \<and>
        (\<forall>r. r \<noteq> right \<and> times_observed samples wrong r = times_observed samples wrong right \<longrightarrow>
             first_seen samples wrong right < first_seen samples wrong r)) \<and>
     (\<forall>right. times_observed samples wrong right = 1 \<longrightarrow>
        map_of (word_replacements lc) wrong \<noteq> Some right) \<and>
     (\<forall>right. 2 \<le> times_observed samples wrong right \<and>
        (\<forall>r. r \<noteq> right \<longrightarrow> times_observed samples wrong r < times_observed samples wrong right) \<longrightarrow>
        map_of (word_replacements lc) wrong = Some right) \<and>
     (5 \<le> length samples \<and> (\<forall>s \<in> set samples. ocr_text s \<noteq> None \<and> corrected_text s \<noteq> None) \<longrightarrow>
        (\<exists>lc'. learn_from_corrections prior samples = (lc', True) \<and>
           map_of (word_replacements lc') wrong =
             (case map_of (word_replacements lc) wrong of
                None \<Rightarrow> map_of (word_replacements prior) wrong
              | Some right \<Rightarrow> Some right))) \<and>
     (length samples < 5 \<longrightarrow> learn_from_corrections prior samples = (prior, False))"
proof -
  define wr where "wr = fst (replacements_from [] (analyze_corrections samples))"
  define lc where "lc = \<lparr>word_replacements = wr,
       pattern_fixes =
         (if any_sample qq_evidence samples then [qq_fix] else []) @
         (if any_sample (\<lambda>ocr correct. dollar_O_evidence ocr) samples then [dollar_O_fix] else []) @
         (if any_sample l_evidence samples then [l_fix] else []) @
         (if any_sample O_evidence samples then [O_fix] else []),
       context_corrections = []\<rparr>"
  have l: "learn samples = Inr lc" by (simp add: learn_total lc_def wr_def)
  have w: "word_replacements lc = wr" by (simp add: lc_def)
  note c = counted_analyze [of samples]
  have key: "(\<exists>right. map_of wr wrong = Some right) \<longleftrightarrow>
        (\<exists>r. 2 \<le> times_observed samples wrong r)"
    using replacements_counted(2) [OF c, of wrong] by (simp add: wr_def times_observed_def)
  have best: "2 \<le> times_observed samples wrong right \<and>
        (\<forall>r. times_observed samples wrong r \<le> times_observed samples wrong right) \<and>
        (\<forall>r. r \<noteq> right \<and> times_observed samples wrong r = times_observed samples wrong right \<longrightarrow>
             first_seen samples wrong right < first_seen samples wrong r)"
    if "map_of wr wrong = Some right" for right
    using replacements_counted(3) [OF c, of wrong right] that
    by (simp add: wr_def times_observed_def first_seen_def)
  have chosen: "map_of wr wrong = Some right"
    if two: "2 \<le> times_observed samples wrong right"
      and most: "\<forall>r. times_observed samples wrong r \<le> times_observed samples wrong right"
      and first: "\<forall>r. r \<noteq> right \<and>
              times_observed samples wrong r = times_observed samples wrong right \<longrightarrow>
              first_seen samples wrong right < first_seen samples wrong r"
    for right
  proof -
    from two key obtain r0 where r0: "map_of wr wrong = Some r0" by blast
    note b = best [OF r0]
    from b most have same: "times_observed samples wrong r0 = times_observed samples wrong right"
      by (simp add: le_antisym)
    have "r0 = right"
    proof (rule ccontr)
      assume ne: "r0 \<noteq> right"
      with first same have "first_seen samples wrong right < first_seen samples wrong r0"
        by simp
      moreover from b ne same have "first_seen samples wrong r0 < first_seen samples wrong right"
        by simp
      ultimately show False by simp
    qed
    with r0 show ?thesis by simp
  qed
  have c1: "(\<exists>right. map_of (word_replacements lc) wrong = Some right) \<longleftrightarrow>
        (\<exists>r. 2 \<le> times_observed samples wrong r)"
    unfolding w by (rule key)
  have c2: "\<forall>right. map_of (word_replacements lc) wrong = Some right \<longleftrightarrow>
        2 \<le> times_observed samples wrong right \<and>
        (\<forall>r. times_observed samples wrong r \<le> times_observed samples wrong right) \<and>
        (\<forall>r. r \<noteq> right \<and> times_observed samples wrong r = times_observed samples wrong right \<longrightarrow>
             first_seen samples wrong right < first_seen samples wrong r)"
    unfolding w
  proof (intro allI iffI)
    fix right
    assume "map_of wr wrong = Some right"
    then show "2 \<le> times_observed samples wrong right \<and>
        (\<forall>r. times_observed samples wrong r \<le> times_observed samples wrong right) \<and>
        (\<forall>r. r \<noteq> right \<and> times_observed samples wrong r = times_observed samples wrong right \<longrightarrow>
             first_seen samples wrong right < first_seen samples wrong r)"
      by (rule best)
  next
    fix right
    assume "2 \<le> times_observed samples wrong right \<and>
        (\<forall>r. times_observed samples wrong r \<le> times_observed samples wrong right) \<and>
        (\<forall>r. r \<noteq> right \<and> times_observed samples wrong r = times_observed samples wrong right \<longrightarrow>
             first_seen samples wrong right < first_seen samples wrong r)"
    then show "map_of wr wrong = Some right" by (intro chosen) simp_all
  qed
  have c3: "\<forall>right. times_observed samples wrong right = 1 \<longrightarrow>
        map_of (word_replacements lc) wrong \<noteq> Some right"
    unfolding w
  proof (intro allI impI notI)
    fix right
    assume "times_observed samples wrong right = 1" and "map_of wr wrong = Some right"
    with best [of right] show False by simp
  qed
  have c4: "\<forall>right. 2 \<le> times_observed samples wrong right \<and>
        (\<forall>r. r \<noteq> right \<longrightarrow> times_observed samples wrong r < times_observed samples wrong right) \<longrightarrow>
        map_of (word_replacements lc) wrong = Some right"
    unfolding w
  proof (intro allI impI)
    fix right
    assume a: "2 \<le> times_observed samples wrong right \<and>
        (\<forall>r. r \<noteq> right \<longrightarrow> times_observed samples wrong r < times_observed samples wrong right)"
    have "times_observed samples wrong r \<le> times_observed samples wrong right" for r
      using a by (cases "r = right") (simp_all add: less_imp_le)
    moreover have "r \<noteq> right \<and>
        times_observed samples wrong r = times_observed samples wrong right \<longrightarrow>
        first_seen samples wrong right < first_seen samples wrong r" for r
      using a by auto
    ultimately show "map_of wr wrong = Some right" using a by (intro chosen) simp_all
  qed
  have c5: "5 \<le> length samples \<and>
        (\<forall>s \<in> set samples. ocr_text s \<noteq> None \<and> corrected_text s \<noteq> None) \<longrightarrow>
        (\<exists>lc'. learn_from_corrections prior samples = (lc', True) \<and>
           map_of (word_replacements lc') wrong =
             (case map_of (word_replacements lc) wrong of
                None \<Rightarrow> map_of (word_replacements prior) wrong
              | Some right \<Rightarrow> Some right))"
    unfolding w
  proof (intro impI)
    assume a: "5 \<le> length samples \<and>
        (\<forall>s \<in> set samples. ocr_text s \<noteq> None \<and> corrected_text s \<noteq> None)"
    then have five: "5 \<le> length samples"
      and both: "\<forall>s \<in> set samples. ocr_text s \<noteq> None \<and> corrected_text s \<noteq> None"
      by simp_all
    note run = learn_from_corrections_run [OF five both, of prior]
    note onto = replacements_onto(2) [OF c, of "word_replacements prior" wrong]
    from run onto show "\<exists>lc'. learn_from_corrections prior samples = (lc', True) \<and>
           map_of (word_replacements lc') wrong =
             (case map_of wr wrong of
                None \<Rightarrow> map_of (word_replacements prior) wrong
              | Some right \<Rightarrow> Some right)"
      by (simp add: wr_def)
  qed
  have c6: "length samples < 5 \<longrightarrow> learn_from_corrections prior samples = (prior, False)"
    by (simp add: learn_from_corrections_def)
  from l c1 c2 c3 c4 c5 c6 show ?thesis by blast
qed

theorem word_replacements_threshold_witness:
  "(times_observed example_corpus ''teh'' ''the'' = 2 \<and>
    5 \<le> length example_corpus \<and>
    list_all (\<lambda>s. ocr_text s \<noteq> None \<and> corrected_text s \<noteq> None) example_corpus \<and>
    learn example_corpus = Inr \<lparr>word_replacements = [(''teh'', ''the'')],
      pattern_fixes = [qq_fix], context_corrections = []\<rparr> \<and>
    learn_from_corrections initial_corrections example_corpus =
      (\<lparr>word_replacements = [(''teh'', ''the'')], pattern_fixes = [qq_fix],
        context_corrections = []\<rparr>, True)) \<and>
   (times_observed example_corpus ''5.qq'' ''5.99'' = 1 \<and>
    (\<exists>lc. learn example_corpus = Inr lc \<and>
       map_of (word_replacements lc) ''5.qq'' \<noteq> Some ''5.99'')) \<and>
   (times_observed tie_corpus ''c1ose'' ''close'' = 2 \<and>
    times_observed tie_corpus ''c1ose'' ''chose'' = 2 \<and>
    first_seen tie_corpus ''c1ose'' ''close'' = 0 \<and>
    first_seen tie_corpus ''c1ose'' ''chose'' = 1 \<and>
    (\<exists>lc. learn tie_corpus = Inr lc \<and>
       map_of (word_replacements lc) ''c1ose'' = Some ''close'')) \<and>
   (length tie_corpus < 5 \<and>
    learn_from_corrections initial_corrections tie_corpus = (initial_corrections, False)) \<and>
   (\<exists>lc. learn example_corpus = Inr lc \<and>
     ((\<exists>right. map_of (word_replacements lc) ''teh'' = Some right) \<longleftrightarrow>
        (\<exists>r. 2 \<le> times_observed example_corpus ''teh'' r)) \<and>
     (\<forall>right. map_of (word_replacements lc) ''teh'' = Some right \<longleftrightarrow>
        2 \<le> times_observed example_corpus ''teh'' right \<and>
        (\<forall>r. times_observed example_corpus ''teh'' r \<le> times_observed example_corpus ''teh'' right) \<and>
        (\<forall>r. r \<noteq> right \<and>
             times_observed example_corpus ''teh'' r = times_observed example_corpus ''teh'' right \<longrightarrow>
             first_seen example_corpus ''teh'' right < first_seen example_corpus ''teh'' r)) \<and>
     (\<forall>right. times_observed example_corpus ''teh'' right = 1 \<longrightarrow>
        map_of (word_replacements lc) ''teh'' \<noteq> Some right) \<and>
     (\<forall>right. 2 \<le> times_observed example_corpus ''teh'' right \<and>
        (\<forall>r. r \<noteq> right \<longrightarrow>
             times_observed example_corpus ''teh'' r < times_observed example_corpus ''teh'' right) \<longrightarrow>
        map_of (word_replacements lc) ''teh'' = Some right) \<and>
     (5 \<le> length example_corpus \<and>
      (\<forall>s \<in> set example_corpus. ocr_text s \<noteq> None \<and> corrected_text s \<noteq> None) \<longrightarrow>
        (\<exists>lc'. learn_from_corrections initial_corrections example_corpus = (lc', True) \<and>
           map_of (word_replacements lc') ''teh'' =
             (case map_of (word_replacements lc) ''teh'' of
                None \<Rightarrow> map_of (word_replacements initial_corrections) ''teh''
              | Some right \<Rightarrow> Some right))) \<and>
     (length example_corpus < 5 \<longrightarrow>
        learn_from_corrections initial_corrections example_corpus = (initial_corrections, False)))"
proof -
  have teh: "times_observed example_corpus ''teh'' ''the'' = 2"
    and qq: "times_observed example_corpus ''5.qq'' ''5.99'' = 1"
    by (simp_all add: times_observed_def example_observations)
  have five: "5 \<le> length example_corpus" by (simp add: example_corpus_def teh_corpus_def)
  have both: "list_all (\<lambda>s. ocr_text s \<noteq> None \<and> corrected_text s \<noteq> None) example_corpus"
    by (simp add: example_corpus_def teh_corpus_def corrected_sample_def)
  have close: "times_observed tie_corpus ''c1ose'' ''close'' = 2"
    and chose: "times_observed tie_corpus ''c1ose'' ''chose'' = 2"
    by (simp_all add: times_observed_def tie_observations)
  have first: "first_seen tie_corpus ''c1ose'' ''close'' = 0"
    "first_seen tie_corpus ''c1ose'' ''chose'' = 1"
    by (simp_all add: first_seen_def position_def tie_observations)
  have four: "length tie_corpus < 5" by (simp add: tie_corpus_def)
  have most: "times_observed tie_corpus ''c1ose'' r \<le> 2" for r
    by (auto simp: times_observed_def tie_observations)
  have later: "r \<noteq> ''close'' \<and> times_observed tie_corpus ''c1ose'' r = 2 \<longrightarrow>
      0 < first_seen tie_corpus ''c1ose'' r" for r
    by (auto simp: times_observed_def first_seen_def position_def tie_observations)
  note example = word_replacements_threshold [of example_corpus "''teh''" initial_corrections]
  note price = word_replacements_threshold [of example_corpus "''5.qq''" initial_corrections]
  note tie = word_replacements_threshold [of tie_corpus "''c1ose''" initial_corrections]
  from price qq have p: "\<exists>lc. learn example_corpus = Inr lc \<and>
       map_of (word_replacements lc) ''5.qq'' \<noteq> Some ''5.99''" by blast
  from tie close most later first(1) have t: "\<exists>lc. learn tie_corpus = Inr lc \<and>
       map_of (word_replacements lc) ''c1ose'' = Some ''close''" by auto
  from tie four have f: "learn_from_corrections initial_corrections tie_corpus =
      (initial_corrections, False)" by blast
  from teh five both example_learn example_run qq p close chose first t four f example
  show ?thesis by blast
qed

section \<open>Pattern rules are gated on evidence\<close>

lemma fixes_distinct:
  "dollar_O_fix \<noteq> qq_fix" "dollar_O_fix \<noteq> l_fix" "dollar_O_fix \<noteq> O_fix"
  by (simp_all add: dollar_O_fix_def qq_fix_def l_fix_def O_fix_def)

lemma no_dollar_O:
  "\<forall>s \<in> set samples. \<not> contains ''$O'' (get_text (ocr_text s)) \<and>
                      \<not> contains ''$o'' (get_text (ocr_text s)) \<Longrightarrow>
   \<not> any_sample (\<lambda>ocr correct. dollar_O_evidence ocr) samples"
  by (auto simp: any_sample_def dollar_O_evidence_def list_ex_iff)

text \<open>
  In \<open>learn.py\<close> every entry of \<open>pattern_fixes\<close> is a rule of the catalogue, and some
  sample gives the evidence of its hypothesis.
\<close>

lemma learn_pattern_fixes_gated:
  "\<exists>lc. learn samples = Inr lc \<and>
     (\<forall>f \<in> set (pattern_fixes lc).
        (f = qq_fix \<and> any_sample qq_evidence samples) \<or>
        (f = dollar_O_fix \<and> any_sample (\<lambda>ocr correct. dollar_O_evidence ocr) samples) \<or>
        (f = l_fix \<and> any_sample l_evidence samples) \<or>
        (f = O_fix \<and> any_sample O_evidence samples))"
  unfolding learn_total by auto

text \<open>
  When no sample's OCR text contains \<open>$O\<close> or \<open>$o\<close>, the rule for \<open>$0\<close> is in neither
  synthesizer's \<open>pattern_fixes\<close>; for \<open>pp6.py\<close> whatever the rule set was before, when
  the learning pass succeeds.
\<close>

lemma dollar_O_rule_gated:
  assumes "\<forall>s \<in> set samples. \<not> contains ''$O'' (get_text (ocr_text s)) \<and>
                             \<not> contains ''$o'' (get_text (ocr_text s))"
  shows "\<exists>lc. learn samples = Inr lc \<and> dollar_O_fix \<notin> set (pattern_fixes lc)"
    and "learn_from_corrections prior samples = (lc', True) \<Longrightarrow>
         dollar_O_fix \<notin> set (pattern_fixes lc')"
proof -
  note none = no_dollar_O [OF assms]
  show "\<exists>lc. learn samples = Inr lc \<and> dollar_O_fix \<notin> set (pattern_fixes lc)"
    unfolding learn_total using none fixes_distinct by auto
  show "dollar_O_fix \<notin> set (pattern_fixes lc')"
    if "learn_from_corrections prior samples = (lc', True)"
    using learn_from_corrections_fixes [OF that] none fixes_distinct by auto
qed

text \<open>
  In \<open>pp6.py\<close> the entries for the first two hypotheses are gated in the same way; the
  test for the third one asks for a digit before an \<open>l\<close> in an OCR text and a digit
  before a \<open>1\<close> in a corrected text, and nothing after them.
\<close>

lemma pp6_pattern_fixes_gated:
  assumes "learn_from_corrections prior samples = (lc', True)"
  shows "\<forall>f \<in> set (pattern_fixes lc').
        (f = qq_fix \<and> any_sample qq_evidence samples) \<or>
        (f = dollar_O_fix \<and> any_sample (\<lambda>ocr correct. dollar_O_evidence ocr) samples) \<or>
        (f = l_fix \<and> any_sample l_evidence_pp6 samples)"
  using learn_from_corrections_fixes [OF assms] by auto

text \<open>
  C6 at a failing input. Of five samples one has the OCR text \<open>room 2l\<close>, corrected to
  \<open>room 21\<close>, and four need no correction. No OCR text of the corpus has an \<open>l\<close> or
  an \<open>I\<close> between two digits, so the corpus has no evidence for the third hypothesis
  of the catalogue, and \<open>learn.py\<close> adds no pattern rule. \<open>learn_from_corrections\<close> of
  \<open>pp6.py\<close> succeeds and adds the rule of that hypothesis.
\<close>

theorem pp6_l_rule_without_evidence:
  "list_all (\<lambda>s. re_search (BS # ''d[lI]'' @ BS # ''d'') (get_text (ocr_text s)) = Inr False)
     l_corpus \<and>
   learn l_corpus = Inr \<lparr>word_replacements = [], pattern_fixes = [],
      context_corrections = []\<rparr> \<and>
   learn_from_corrections initial_corrections l_corpus =
     (\<lparr>word_replacements = [], pattern_fixes = [l_fix], context_corrections = []\<rparr>, True)"
  by code_simp

section \<open>The two synthesizers compared\<close>

text \<open>
  C10, as the code has it. On a corpus of at least five samples that all have both
  texts, \<open>learn_from_corrections\<close> of \<open>pp6.py\<close>, started from its initial rule set,
  succeeds and agrees with \<open>learn.py\<close> on \<open>word_replacements\<close>, on
  \<open>context_corrections\<close> and on the entries of \<open>pattern_fixes\<close> for the first two
  hypotheses of the catalogue (\<open>qq\<close> and \<open>$O\<close>), which come first in both. What follows
  them are rules for the other hypotheses.
\<close>

theorem synthesizers_agree:
  assumes "5 \<le> length samples"
      and "\<forall>s \<in> set samples. ocr_text s \<noteq> None \<and> corrected_text s \<noteq> None"
  shows "\<exists>lc lc' shared rest rest'.
           learn samples = Inr lc \<and>
           learn_from_corrections initial_corrections samples = (lc', True) \<and>
           word_replacements lc' = word_replacements lc \<and>
           context_corrections lc' = context_corrections lc \<and>
           pattern_fixes lc = shared @ rest \<and> pattern_fixes lc' = shared @ rest' \<and>
           set shared \<subseteq> {qq_fix, dollar_O_fix} \<and>
           set rest \<subseteq> {l_fix, O_fix} \<and> set rest' \<subseteq> {l_fix}"
proof -
  from analyze_strict_total [OF assms(2), of "[]"] obtain wc where
    wc: "analyze_strict [] samples = Inr wc" by blast
  from analyze_strict_eq [OF wc] have eq: "wc = analyze_corrections samples"
    by (simp add: analyze_corrections_def)
  note none = replacements_counted(1) [OF counted_analyze, of samples]
  obtain wr where wr: "replacements_from [] (analyze_corrections samples) = (wr, None)"
    using none by (cases "replacements_from [] (analyze_corrections samples)") auto
  define shared where "shared =
     (if any_sample qq_evidence samples then [qq_fix] else []) @
     (if any_sample (\<lambda>ocr correct. dollar_O_evidence ocr) samples then [dollar_O_fix] else [])"
  define rest where "rest =
     (if any_sample l_evidence samples then [l_fix] else []) @
     (if any_sample O_evidence samples then [O_fix] else [])"
  define rest' where "rest' = (if any_sample l_evidence_pp6 samples then [l_fix] else [])"
  have run: "learn_from_corrections initial_corrections samples =
      (\<lparr>word_replacements = wr, pattern_fixes = shared @ rest', context_corrections = []\<rparr>, True)"
    using assms(1) wc eq wr
    by (simp add: learn_from_corrections_def initial_corrections_def shared_def rest'_def)
  have l: "learn samples =
      Inr \<lparr>word_replacements = wr, pattern_fixes = shared @ rest, context_corrections = []\<rparr>"
    using wr by (simp add: learn_total shared_def rest_def)
  have "set shared \<subseteq> {qq_fix, dollar_O_fix}" "set rest \<subseteq> {l_fix, O_fix}" "set rest' \<subseteq> {l_fix}"
    by (auto simp: shared_def rest_def rest'_def)
  with run l show ?thesis by force
qed

theorem synthesizers_agree_witness:
  "5 \<le> length example_corpus \<and>
   list_all (\<lambda>s. ocr_text s \<noteq> None \<and> corrected_text s \<noteq> None) example_corpus \<and>
   (\<exists>lc lc' shared rest rest'.
           learn example_corpus = Inr lc \<and>
           learn_from_corrections initial_corrections example_corpus = (lc', True) \<and>
           word_replacements lc' = word_replacements lc \<and>
           context_corrections lc' = context_corrections lc \<and>
           pattern_fixes lc = shared @ rest \<and> pattern_fixes lc' = shared @ rest' \<and>
           set shared \<subseteq> {qq_fix, dollar_O_fix} \<and>
           set rest \<subseteq> {l_fix, O_fix} \<and> set rest' \<subseteq> {l_fix})"
proof -
  have n: "5 \<le> length example_corpus" by (simp add: example_corpus_def teh_corpus_def)
  have f: "\<forall>s \<in> set example_corpus. ocr_text s \<noteq> None \<and> corrected_text s \<noteq> None"
    by (simp add: example_corpus_def teh_corpus_def corrected_sample_def)
  from f have f': "list_all (\<lambda>s. ocr_text s \<noteq> None \<and> corrected_text s \<noteq> None) example_corpus"
    by (simp add: list_all_iff)
  from synthesizers_agree [OF n f] n f' show ?thesis by blast
qed

text \<open>
  On the two samples of the specification's second example, \<open>learn.py\<close> learns the
  replacement of \<open>teh\<close>, and \<open>learn_from_corrections\<close> of \<open>pp6.py\<close>, which wants five
  samples, returns \<open>False\<close> and leaves its rule set empty.
\<close>

theorem synthesizers_differ_counterexample:
  "learn teh_corpus = Inr \<lparr>word_replacements = [(''teh'', ''the'')], pattern_fixes = [],
      context_corrections = []\<rparr> \<and>
   learn_from_corrections initial_corrections teh_corpus =
     (\<lparr>word_replacements = [], pattern_fixes = [], context_corrections = []\<rparr>, False)"
  by code_simp

section \<open>What the longest-match search finds\<close>

lemma csl_le: "csl a b alo blo i j \<le> i + 1 - alo \<and> csl a b alo blo i j \<le> j + 1 - blo"
proof (induction a b alo blo i j rule: csl.induct)
  case (1 a b alo blo i j)
  show ?case
  proof (cases "alo \<le> i \<and> blo \<le> j \<and> a ! i = b ! j")
    case False
    then show ?thesis by (subst csl.simps, subst (2) csl.simps) auto
  next
    case True
    show ?thesis
    proof (cases "i = 0 \<or> j = 0")
      case z: True
      with True show ?thesis by (subst csl.simps, subst (2) csl.simps) auto
    next
      case nz: False
      with True "1.IH" have "csl a b alo blo (i - 1) (j - 1) \<le> i - alo"
        "csl a b alo blo (i - 1) (j - 1) \<le> j - blo" by auto
      with True nz show ?thesis by (subst csl.simps, subst (2) csl.simps) auto
    qed
  qed
qed

lemma csl_common:
  "k \<le> csl a b alo blo i j \<Longrightarrow> common a b (i + 1 - k) (j + 1 - k) k"
proof (induction a b alo blo i j arbitrary: k rule: csl.induct)
  case (1 a b alo blo i j)
  show ?case
  proof (cases "k = 0")
    case True
    then show ?thesis by (simp add: common_def)
  next
    case kpos: False
    with "1.prems" have c: "alo \<le> i \<and> blo \<le> j \<and> a ! i = b ! j"
      by (subst (asm) csl.simps) (auto split: if_splits)
    show ?thesis
    proof (cases "i = 0 \<or> j = 0")
      case True
      with "1.prems" c have "k \<le> 1" by (subst (asm) csl.simps) simp
      with kpos have "k = 1" by simp
      with c show ?thesis by (simp add: common_def)
    next
      case False
      with "1.prems" c have "k - 1 \<le> csl a b alo blo (i - 1) (j - 1)"
        by (subst (asm) csl.simps) simp
      from "1.IH" [OF c False this] have IH: "common a b (i - 1 + 1 - (k - 1)) (j - 1 + 1 - (k - 1)) (k - 1)" .
      from csl_le [of a b alo blo i j] "1.prems" have ki: "k \<le> i + 1" and kj: "k \<le> j + 1" by auto
      show ?thesis
        unfolding common_def
      proof (intro allI impI)
        fix t assume t: "t < k"
        show "a ! (i + 1 - k + t) = b ! (j + 1 - k + t)"
        proof (cases "t = k - 1")
          case True
          with kpos ki kj c show ?thesis by simp
        next
          case nt: False
          with t have "t < k - 1" by simp
          with IH have "a ! (i - 1 + 1 - (k - 1) + t) = b ! (j - 1 + 1 - (k - 1) + t)"
            by (simp add: common_def)
          moreover from False kpos ki have "i - 1 + 1 - (k - 1) = i + 1 - k" by auto
          moreover from False kpos kj have "j - 1 + 1 - (k - 1) = j + 1 - k" by auto
          ultimately show ?thesis by simp
        qed
      qed
    qed
  qed
qed

lemma common_csl:
  assumes "common a b i j k" and "alo \<le> i" and "blo \<le> j" and "k > 0"
  shows "k \<le> csl a b alo blo (i + k - 1) (j + k - 1)"
  using assms
proof (induction k)
  case 0
  then show ?case by simp
next
  case (Suc k)
  from Suc.prems(1) have last: "a ! (i + k) = b ! (j + k)" by (simp add: common_def)
  from Suc.prems(1) have c: "common a b i j k" by (simp add: common_def)
  show ?case
  proof (cases "k = 0")
    case True
    with last Suc.prems show ?thesis by (subst csl.simps) auto
  next
    case False
    with Suc.IH [OF c Suc.prems(2,3)] have "k \<le> csl a b alo blo (i + k - 1) (j + k - 1)" by simp
    moreover have "csl a b alo blo (i + Suc k - 1) (j + Suc k - 1) =
        csl a b alo blo (i + k - 1) (j + k - 1) + 1"
      using last Suc.prems(2,3) False by (subst csl.simps) auto
    ultimately show ?thesis by simp
  qed
qed

section \<open>The loops compute the common runs\<close>

lemma sorted_indices_of: "sorted (indices_of x b)"
  unfolding indices_of_def by (rule sorted_wrt_filter) simp

lemma set_indices_of: "set (indices_of x b) = {j. j < length b \<and> b ! j = x}"
  by (auto simp: indices_of_def)

lemma distinct_indices_of: "distinct (indices_of x b)"
  by (simp add: indices_of_def)

lemma inner_loop_filter:
  "sorted js \<Longrightarrow>
   inner_loop i j2len blo bhi js st =
   inner_loop i j2len blo bhi (filter (\<lambda>j. blo \<le> j \<and> j < bhi) js) st"
proof (induction js arbitrary: st)
  case Nil
  then show ?case by simp
next
  case (Cons j js)
  obtain new bi bj bs where st: "st = (new, bi, bj, bs)" by (cases st) auto
  from Cons.prems have s: "sorted js" and ge: "\<forall>x \<in> set js. j \<le> x" by auto
  show ?case
  proof (cases "j < blo")
    case True
    with Cons.IH [OF s] st show ?thesis by simp
  next
    case lo: False
    show ?thesis
    proof (cases "j \<ge> bhi")
      case True
      with ge have "filter (\<lambda>j. blo \<le> j \<and> j < bhi) js = []" by (auto simp: filter_empty_conv)
      with True lo st show ?thesis by simp
    next
      case False
      with lo Cons.IH [OF s] st show ?thesis by (simp add: Let_def)
    qed
  qed
qed

lemma key_step:
  assumes "alo \<le> i" and "blo \<le> j" and "j < bhi" and "a ! i = b ! j"
  shows "(if j = 0 then 0 else row_before a b alo blo bhi i (j - 1)) + 1 = csl a b alo blo i j"
proof (cases "i = 0 \<or> j = 0")
  case True
  with assms show ?thesis by (subst csl.simps) (auto simp: row_before_def)
next
  case False
  have "row_before a b alo blo bhi i (j - 1) = csl a b alo blo (i - 1) (j - 1)"
  proof (cases "i = alo")
    case True
    with False have "\<not> alo \<le> i - 1" by auto
    then have "csl a b alo blo (i - 1) (j - 1) = 0" by (subst csl.simps) simp
    with True show ?thesis by (simp add: row_before_def)
  next
    case ne: False
    show ?thesis
    proof (cases "blo \<le> j - 1")
      case True
      moreover from assms(3) have "j - 1 < bhi" by simp
      ultimately show ?thesis using ne by (simp add: row_before_def row_def)
    next
      case nb: False
      then have "csl a b alo blo (i - 1) (j - 1) = 0" by (subst csl.simps) simp
      with ne nb show ?thesis by (simp add: row_before_def row_def)
    qed
  qed
  with False assms show ?thesis by (subst csl.simps) auto
qed

text \<open>
  One row: over the positions of \<open>a ! i\<close> in the window, the inner loop writes the common
  runs that end in row \<open>i\<close> and updates the best block cell by cell.
\<close>

lemma inner_loop_cells:
  assumes "alo \<le> i"
      and "\<forall>j \<in> set js. blo \<le> j \<and> j < bhi \<and> a ! i = b ! j"
  shows "inner_loop i (row_before a b alo blo bhi i) blo bhi js (new, best) =
         (\<lambda>j. if j \<in> set js then csl a b alo blo i j else new j,
          fold (take_cell a b alo blo) (map (\<lambda>j. (i, j)) js) best)"
  using assms(2)
proof (induction js arbitrary: new best)
  case Nil
  then show ?case by simp
next
  case (Cons j js)
  obtain bi bj bs where best: "best = (bi, bj, bs)" by (cases best)
  from Cons.prems have j: "blo \<le> j" "j < bhi" "a ! i = b ! j"
    and rest: "\<forall>j \<in> set js. blo \<le> j \<and> j < bhi \<and> a ! i = b ! j" by auto
  note k = key_step [OF assms(1) j]
  define best' where "best' = take_cell a b alo blo (i, j) best"
  have step: "inner_loop i (row_before a b alo blo bhi i) blo bhi (j # js) (new, best) =
      inner_loop i (row_before a b alo blo bhi i) blo bhi js
        (new(j := csl a b alo blo i j), best')"
    using j k best by (simp add: Let_def best'_def take_cell_def)
  show ?case
    unfolding step Cons.IH [OF rest]
    by (auto simp: best'_def fun_eq_iff)
qed

lemma inner_loop_row:
  assumes "alo \<le> i" and "bhi \<le> length b"
  shows "inner_loop i (row_before a b alo blo bhi i) blo bhi (indices_of (a ! i) b) (\<lambda>j. 0, best) =
         (row a b alo blo bhi i, fold (take_cell a b alo blo) (cells_row a b blo bhi i) best)"
proof -
  define js where "js = filter (\<lambda>j. blo \<le> j \<and> j < bhi) (indices_of (a ! i) b)"
  have in_js: "j \<in> set js \<longleftrightarrow> blo \<le> j \<and> j < bhi \<and> b ! j = a ! i" for j
    using assms(2) by (auto simp: js_def set_indices_of)
  then have ok: "\<forall>j \<in> set js. blo \<le> j \<and> j < bhi \<and> a ! i = b ! j" by auto
  have zero: "csl a b alo blo i j = 0" if "a ! i \<noteq> b ! j" for j
    using that by (subst csl.simps) simp
  have "(\<lambda>j. if j \<in> set js then csl a b alo blo i j else 0) = row a b alo blo bhi i"
    using in_js zero by (auto simp: row_def fun_eq_iff)
  with inner_loop_cells [OF assms(1) ok, of "\<lambda>j. 0" best]
  show ?thesis
    by (simp add: inner_loop_filter [OF sorted_indices_of] js_def cells_row_def)
qed

lemma outer_loop_cells:
  assumes "\<forall>x. \<not> popular b x" and "bhi \<le> length b" and "alo \<le> m"
  shows "outer_loop a b blo bhi [m..<ahi] (row_before a b alo blo bhi m, best) =
         fold (take_cell a b alo blo) (concat (map (cells_row a b blo bhi) [m..<ahi])) best"
  using assms(3)
proof (induction "ahi - m" arbitrary: m best)
  case 0
  then show ?case by simp
next
  case (Suc n)
  then have m: "m < ahi" by simp
  then have upt: "[m..<ahi] = m # [Suc m..<ahi]" by (rule upt_conv_Cons)
  from assms(1) have b2j: "b2j b (a ! m) = indices_of (a ! m) b" by (simp add: b2j_def)
  have next_row: "row a b alo blo bhi m = row_before a b alo blo bhi (Suc m)"
    using Suc.prems by (simp add: row_before_def)
  from Suc.hyps(2) have n: "n = ahi - Suc m" by simp
  from Suc.prems have le: "alo \<le> Suc m" by simp
  show ?case
    unfolding upt
    by (simp add: b2j inner_loop_row [OF Suc.prems assms(2)] next_row Suc.hyps(1) [OF n le])
qed

section \<open>The first longest common block\<close>

lemma set_cells_row:
  "set (cells_row a b blo bhi i) = {(i, j) | j. blo \<le> j \<and> j < bhi \<and> j < length b \<and> b ! j = a ! i}"
  by (auto simp: cells_row_def set_indices_of)

lemma set_all_cells:
  "set (all_cells a b alo ahi blo bhi) =
     {(i, j) | i j. alo \<le> i \<and> i < ahi \<and> blo \<le> j \<and> j < bhi \<and> j < length b \<and> b ! j = a ! i}"
  by (auto simp: all_cells_def set_cells_row)

lemma sorted_cells_row: "sorted_wrt lexlt (cells_row a b blo bhi i)"
proof -
  have "sorted_wrt (<) [0..<length b]" by (simp add: sorted_wrt_iff_nth_less)
  then have "sorted_wrt (<) (indices_of (a ! i) b)"
    unfolding indices_of_def by (rule sorted_wrt_filter)
  then have "sorted_wrt (<) (filter (\<lambda>j. blo \<le> j \<and> j < bhi) (indices_of (a ! i) b))"
    by (rule sorted_wrt_filter)
  then show ?thesis
    by (simp add: cells_row_def sorted_wrt_map lexlt_def)
qed

lemma sorted_rows: "sorted_wrt lexlt (concat (map (cells_row a b blo bhi) [m..<ahi]))"
proof (induction "ahi - m" arbitrary: m)
  case 0
  then show ?case by simp
next
  case (Suc n)
  then have m: "m < ahi" by simp
  then have upt: "[m..<ahi] = m # [Suc m..<ahi]" by (rule upt_conv_Cons)
  from Suc.hyps(2) have n: "n = ahi - Suc m" by simp
  have later: "\<forall>c \<in> set (cells_row a b blo bhi m).
      \<forall>c' \<in> set (concat (map (cells_row a b blo bhi) [Suc m..<ahi])). lexlt c c'"
    by (auto simp: set_cells_row lexlt_def)
  show ?case
    unfolding upt
    using sorted_cells_row [of a b blo bhi m] Suc.hyps(1) [OF n] later
    by (simp add: sorted_wrt_append)
qed

lemma sorted_all_cells: "sorted_wrt lexlt (all_cells a b alo ahi blo bhi)"
  unfolding all_cells_def by (rule sorted_rows)

lemma fold_take_cell:
  "sorted_wrt lexlt cs \<Longrightarrow>
   first_longest a b alo blo cs (fold (take_cell a b alo blo) cs (alo, blo, 0))"
proof (induction cs rule: rev_induct)
  case Nil
  then show ?case by (simp add: first_longest_def)
next
  case (snoc x cs)
  from snoc.prems have s: "sorted_wrt lexlt cs" and before: "\<forall>c \<in> set cs. lexlt c x"
    by (auto simp: sorted_wrt_append)
  obtain bi bj bs where best: "fold (take_cell a b alo blo) cs (alo, blo, 0) = (bi, bj, bs)"
    by (cases "fold (take_cell a b alo blo) cs (alo, blo, 0)")
  from snoc.IH [OF s] best have
    le: "\<forall>c \<in> set cs. csl a b alo blo (fst c) (snd c) \<le> bs" and
    zero: "bs = 0 \<longrightarrow> bi = alo \<and> bj = blo" and
    pos: "bs > 0 \<longrightarrow>
           (\<exists>c \<in> set cs. csl a b alo blo (fst c) (snd c) = bs \<and>
              bi = fst c + 1 - bs \<and> bj = snd c + 1 - bs \<and>
              (\<forall>c' \<in> set cs. csl a b alo blo (fst c') (snd c') = bs \<longrightarrow> c = c' \<or> lexlt c c'))"
    by (simp_all add: first_longest_def)
  obtain xi xj where x: "x = (xi, xj)" by (cases x)
  define k where "k = csl a b alo blo (fst x) (snd x)"
  have k: "k = csl a b alo blo xi xj" by (simp add: k_def x)
  show ?case
  proof (cases "k > bs")
    case True
    then have new: "fold (take_cell a b alo blo) (cs @ [x]) (alo, blo, 0) =
        (fst x + 1 - k, snd x + 1 - k, k)"
      using best by (simp add: take_cell_def k x Let_def)
    from True le have "\<forall>c \<in> set cs. csl a b alo blo (fst c) (snd c) < k" by auto
    with True show ?thesis
      unfolding new first_longest_def
      by (auto simp: k_def [symmetric] intro!: bexI [of _ x])
  next
    case False
    then have same: "fold (take_cell a b alo blo) (cs @ [x]) (alo, blo, 0) = (bi, bj, bs)"
      using best by (simp add: take_cell_def k x Let_def)
    show ?thesis
    proof (cases "bs = 0")
      case True
      with False zero le show ?thesis
        unfolding same first_longest_def by (auto simp: k_def)
    next
      case nz: False
      with pos obtain c where c: "c \<in> set cs" "csl a b alo blo (fst c) (snd c) = bs"
        "bi = fst c + 1 - bs" "bj = snd c + 1 - bs"
        "\<forall>c' \<in> set cs. csl a b alo blo (fst c') (snd c') = bs \<longrightarrow> c = c' \<or> lexlt c c'"
        by auto
      from before c(1) have "lexlt c x" by blast
      with c False le nz show ?thesis
        unfolding same first_longest_def
        by (auto simp: k_def intro!: bexI [of _ c])
    qed
  qed
qed

lemma dp_best:
  assumes "\<forall>x. \<not> popular b x" and "bhi \<le> length b"
  shows "first_longest a b alo blo (all_cells a b alo ahi blo bhi)
           (outer_loop a b blo bhi [alo..<ahi] (\<lambda>j. 0, (alo, blo, 0)))"
proof -
  have "row_before a b alo blo bhi alo = (\<lambda>j. 0)" by (simp add: row_before_def)
  with outer_loop_cells [OF assms le_refl, where a = a and blo = blo and ahi = ahi
      and alo = alo and best = "(alo, blo, 0)"]
  have "outer_loop a b blo bhi [alo..<ahi] (\<lambda>j. 0, (alo, blo, 0)) =
      fold (take_cell a b alo blo) (all_cells a b alo ahi blo bhi) (alo, blo, 0)"
    by (simp add: all_cells_def)
  with fold_take_cell [of "all_cells a b alo ahi blo bhi" a b alo blo, OF sorted_all_cells]
  show ?thesis by simp
qed

text \<open>
  Without popular elements, \<open>find_longest_match\<close> returns a common block of the window
  that no common block of the window exceeds, and among the longest ones the one that
  starts first in \<open>a\<close> and, from there, first in \<open>b\<close>.
\<close>

lemma find_longest_match_spec:
  assumes np: "\<forall>x. \<not> popular b x" and bhi: "bhi \<le> length b"
      and flm: "find_longest_match a b alo ahi blo bhi = (i, j, k)"
  shows "common a b i j k"
    and "k = 0 \<Longrightarrow> i = alo \<and> j = blo"
    and "\<And>i' j' k'. \<lbrakk>common a b i' j' k'; alo \<le> i'; i' + k' \<le> ahi; blo \<le> j'; j' + k' \<le> bhi\<rbrakk>
           \<Longrightarrow> k' \<le> k"
    and "\<And>i' j'. \<lbrakk>common a b i' j' k; k > 0; alo \<le> i'; i' + k \<le> ahi; blo \<le> j'; j' + k \<le> bhi\<rbrakk>
           \<Longrightarrow> i < i' \<or> (i = i' \<and> j \<le> j')"
proof -
  define cells where "cells = all_cells a b alo ahi blo bhi"
  obtain bi bj bs where best:
    "outer_loop a b blo bhi [alo..<ahi] (\<lambda>j. 0, (alo, blo, 0)) = (bi, bj, bs)"
    by (cases "outer_loop a b blo bhi [alo..<ahi] (\<lambda>j. 0, (alo, blo, 0))")
  from dp_best [OF np bhi, of a alo blo ahi] best have
    le: "\<forall>c \<in> set cells. csl a b alo blo (fst c) (snd c) \<le> bs" and
    zero: "bs = 0 \<longrightarrow> bi = alo \<and> bj = blo" and
    pos: "bs > 0 \<longrightarrow>
           (\<exists>c \<in> set cells. csl a b alo blo (fst c) (snd c) = bs \<and>
              bi = fst c + 1 - bs \<and> bj = snd c + 1 - bs \<and>
              (\<forall>c' \<in> set cells. csl a b alo blo (fst c') (snd c') = bs \<longrightarrow> c = c' \<or> lexlt c c'))"
    by (simp_all add: first_longest_def cells_def)
  have cell: "(i' + k' - 1, j' + k' - 1) \<in> set cells \<and>
              k' \<le> csl a b alo blo (i' + k' - 1) (j' + k' - 1)"
    if "common a b i' j' k'" "k' > 0" "alo \<le> i'" "i' + k' \<le> ahi" "blo \<le> j'" "j' + k' \<le> bhi"
    for i' j' k'
  proof -
    from that(2) have "k' - 1 < k'" by simp
    with that(1) have "a ! (i' + (k' - 1)) = b ! (j' + (k' - 1))"
      unfolding common_def by blast
    with that(2) have "b ! (j' + k' - 1) = a ! (i' + k' - 1)" by simp
    with that bhi have "(i' + k' - 1, j' + k' - 1) \<in> set cells"
      by (auto simp: cells_def set_all_cells)
    with common_csl [OF that(1,3,5,2)] show ?thesis by simp
  qed
  have bound: "k' \<le> bs"
    if "common a b i' j' k'" "alo \<le> i'" "i' + k' \<le> ahi" "blo \<le> j'" "j' + k' \<le> bhi"
    for i' j' k'
  proof (cases "k' = 0")
    case True
    then show ?thesis by simp
  next
    case False
    with cell [OF that(1) _ that(2-5)] le show ?thesis by fastforce
  qed
  have blk: "common a b bi bj bs \<and> alo \<le> bi \<and> blo \<le> bj \<and> (bs > 0 \<longrightarrow> bi + bs \<le> ahi \<and> bj + bs \<le> bhi)"
  proof (cases "bs = 0")
    case True
    with zero show ?thesis by (simp add: common_def)
  next
    case False
    with pos obtain c where c: "c \<in> set cells" "csl a b alo blo (fst c) (snd c) = bs"
      "bi = fst c + 1 - bs" "bj = snd c + 1 - bs" by auto
    from csl_common [of bs a b alo blo "fst c" "snd c"] c
    have "common a b bi bj bs" by simp
    moreover from csl_le [of a b alo blo "fst c" "snd c"] c False
    have "alo \<le> bi" "blo \<le> bj" "bi + bs = fst c + 1" "bj + bs = snd c + 1" by auto
    moreover from c(1) have "fst c < ahi" "snd c < bhi"
      by (auto simp: cells_def set_all_cells)
    ultimately show ?thesis by auto
  qed
  have no_left: "\<not> (bi > alo \<and> bj > blo \<and> a ! (bi - 1) = b ! (bj - 1))"
  proof
    assume g: "bi > alo \<and> bj > blo \<and> a ! (bi - 1) = b ! (bj - 1)"
    with zero have bs: "bs > 0" by auto
    have "common a b (bi - 1) (bj - 1) (bs + 1)"
      unfolding common_def
    proof (intro allI impI)
      fix t assume t: "t < bs + 1"
      show "a ! (bi - 1 + t) = b ! (bj - 1 + t)"
      proof (cases t)
        case 0
        with g show ?thesis by simp
      next
        case (Suc t')
        with t blk have "a ! (bi + t') = b ! (bj + t')" by (simp add: common_def)
        with Suc g show ?thesis by simp
      qed
    qed
    then have "bs + 1 \<le> bs"
      by (rule bound) (use g blk bs in auto)
    then show False by simp
  qed
  have no_right: "\<not> (bi + bs < ahi \<and> bj + bs < bhi \<and> a ! (bi + bs) = b ! (bj + bs))"
  proof
    assume g: "bi + bs < ahi \<and> bj + bs < bhi \<and> a ! (bi + bs) = b ! (bj + bs)"
    have "common a b bi bj (bs + 1)"
      unfolding common_def
    proof (intro allI impI)
      fix t assume t: "t < bs + 1"
      show "a ! (bi + t) = b ! (bj + t)"
      proof (cases "t = bs")
        case True
        with g show ?thesis by simp
      next
        case False
        with t blk show ?thesis by (simp add: common_def)
      qed
    qed
    then have "bs + 1 \<le> bs"
      by (rule bound) (use g blk in auto)
    then show False by simp
  qed
  have "extend_left a b alo blo (bi, bj, bs) = (bi, bj, bs)"
    using no_left by (subst extend_left.simps) auto
  moreover have "extend_right a b ahi bhi (bi, bj, bs) = (bi, bj, bs)"
    using no_right by (subst extend_right.simps) auto
  ultimately have "find_longest_match a b alo ahi blo bhi = (bi, bj, bs)"
    by (simp add: find_longest_match_def best)
  with flm have eq: "i = bi" "j = bj" "k = bs" by simp_all
  from blk eq show "common a b i j k" by simp
  from zero eq show "k = 0 \<Longrightarrow> i = alo \<and> j = blo" by simp
  show "\<And>i' j' k'. \<lbrakk>common a b i' j' k'; alo \<le> i'; i' + k' \<le> ahi; blo \<le> j'; j' + k' \<le> bhi\<rbrakk>
           \<Longrightarrow> k' \<le> k"
    using bound eq by blast
  show "i < i' \<or> (i = i' \<and> j \<le> j')"
    if "common a b i' j' k" "k > 0" "alo \<le> i'" "i' + k \<le> ahi" "blo \<le> j'" "j' + k \<le> bhi"
    for i' j'
  proof -
    from that(2) eq pos obtain c where c: "c \<in> set cells" "csl a b alo blo (fst c) (snd c) = bs"
      "bi = fst c + 1 - bs" "bj = snd c + 1 - bs"
      "\<forall>c' \<in> set cells. csl a b alo blo (fst c') (snd c') = bs \<longrightarrow> c = c' \<or> lexlt c c'"
      by auto
    from cell [OF that] have e: "(i' + k - 1, j' + k - 1) \<in> set cells"
      "k \<le> csl a b alo blo (i' + k - 1) (j' + k - 1)" by simp_all
    with le eq have "csl a b alo blo (i' + k - 1) (j' + k - 1) = bs" by fastforce
    with c(5) e(1) have "c = (i' + k - 1, j' + k - 1) \<or> lexlt c (i' + k - 1, j' + k - 1)"
      by fastforce
    moreover from csl_le [of a b alo blo "fst c" "snd c"] c(2)
    have "bs \<le> fst c + 1" "bs \<le> snd c + 1" by auto
    ultimately show ?thesis
      using c(3,4) eq that(2) by (auto simp: lexlt_def)
  qed
qed

section \<open>Two sequences that differ in one place\<close>

lemma window_match:
  assumes np: "\<forall>x. \<not> popular b x" and d: "differ_at a b p"
      and lo: "lo \<le> p" and hi: "p < hi" "hi \<le> length a"
  shows "find_longest_match a b lo hi lo hi =
         (if hi - (p + 1) \<le> p - lo then (lo, lo, p - lo) else (p + 1, p + 1, hi - (p + 1)))"
proof -
  from d have len: "length a = length b" and agree: "\<And>t. t < length a \<Longrightarrow> t \<noteq> p \<Longrightarrow> a ! t = b ! t"
    and wa: "a ! p \<notin> set b" and rb: "b ! p \<notin> set a"
    by (auto simp: differ_at_def)
  from hi len have bhi: "hi \<le> length b" by simp
  obtain i j k where flm: "find_longest_match a b lo hi lo hi = (i, j, k)"
    by (cases "find_longest_match a b lo hi lo hi")
  note spec = find_longest_match_spec [OF np bhi flm]
  have bnd: "lo \<le> i \<and> i + k \<le> hi \<and> lo \<le> j \<and> j + k \<le> hi" if "k \<noteq> 0"
    using find_longest_match_bounds [OF flm that] .
  have before: "common a b lo lo (p - lo)"
    using agree hi by (auto simp: common_def)
  have after: "common a b (p + 1) (p + 1) (hi - (p + 1))"
    using agree hi by (auto simp: common_def)
  from spec(3) [OF before] lo hi have k1: "p - lo \<le> k" by simp
  from spec(3) [OF after] lo hi have k2: "hi - (p + 1) \<le> k" by simp
  have a_free: "i + k \<le> p \<or> p < i" if "k \<noteq> 0"
  proof (rule ccontr)
    assume "\<not> (i + k \<le> p \<or> p < i)"
    then have t: "p - i < k" "i + (p - i) = p" by auto
    with spec(1) have "a ! p = b ! (j + (p - i))" unfolding common_def by metis
    moreover from t bnd [OF that] bhi have "j + (p - i) < length b" by linarith
    ultimately show False using wa by (metis nth_mem)
  qed
  have b_free: "j + k \<le> p \<or> p < j" if "k \<noteq> 0"
  proof (rule ccontr)
    assume "\<not> (j + k \<le> p \<or> p < j)"
    then have t: "p - j < k" "j + (p - j) = p" by auto
    with spec(1) have "a ! (i + (p - j)) = b ! p" unfolding common_def by metis
    moreover from t bnd [OF that] hi have "i + (p - j) < length a" by linarith
    ultimately show False using rb by (metis nth_mem)
  qed
  show ?thesis
  proof (cases "hi - (p + 1) \<le> p - lo")
    case True
    have "k \<le> p - lo"
    proof (cases "k = 0")
      case True
      then show ?thesis by simp
    next
      case False
      from a_free [OF False] bnd [OF False] True show ?thesis by auto
    qed
    with k1 have k: "k = p - lo" by simp
    have "i = lo \<and> j = lo"
    proof (cases "k = 0")
      case True
      with spec(2) show ?thesis by simp
    next
      case False
      from spec(4) [of lo lo] before k False lo hi have "i < lo \<or> (i = lo \<and> j \<le> lo)" by auto
      with bnd [OF False] show ?thesis by auto
    qed
    with k True flm show ?thesis by simp
  next
    case False
    with k2 have kpos: "k \<noteq> 0" by auto
    from a_free [OF kpos] bnd [OF kpos] k1 k2 False have "i = p + 1 \<and> k = hi - (p + 1)" by auto
    moreover from b_free [OF kpos] bnd [OF kpos] k1 k2 False have "j = p + 1" by auto
    ultimately show ?thesis using False flm by simp
  qed
qed

lemma window_blocks:
  assumes np: "\<forall>x. \<not> popular b x" and d: "differ_at a b p"
      and lo: "lo \<le> p" and hi: "p < hi" "hi \<le> length a"
  shows "matching_blocks_in a b lo hi lo hi =
         (if p - lo > 0 then [(lo, lo, p - lo)] else []) @
         (if hi - (p + 1) > 0 then [(p + 1, p + 1, hi - (p + 1))] else [])"
  using lo hi
proof (induction "hi - lo" arbitrary: lo hi rule: less_induct)
  case less
  note flm = window_match [OF np d less.prems]
  show ?case
  proof (cases "hi - (p + 1) \<le> p - lo")
    case True
    show ?thesis
    proof (cases "p = lo")
      case eq: True
      with True flm less.prems show ?thesis
        by (subst matching_blocks_in.simps) simp
    next
      case ne: False
      with less.prems have pos: "p - lo > 0" by simp
      from ne less.prems have smaller: "hi - p < hi - lo" by simp
      have right: "matching_blocks_in a b p hi p hi =
          (if hi - (p + 1) > 0 then [(p + 1, p + 1, hi - (p + 1))] else [])"
        using less.hyps [OF smaller le_refl less.prems(2,3)] by simp
      from True flm pos less.prems right show ?thesis
        by (subst matching_blocks_in.simps) auto
    qed
  next
    case False
    then have pos: "hi - (p + 1) > 0" by simp
    from False less.prems have smaller: "p + 1 - lo < hi - lo" by simp
    have "p < p + 1" "p + 1 \<le> length a" using less.prems by simp_all
    from less.hyps [OF smaller less.prems(1) this]
    have left: "matching_blocks_in a b lo (p + 1) lo (p + 1) =
        (if p - lo > 0 then [(lo, lo, p - lo)] else [])" by simp
    from False flm pos less.prems left show ?thesis
      by (subst matching_blocks_in.simps) auto
  qed
qed

lemma one_place_opcodes:
  assumes np: "\<forall>x. \<not> popular b x" and d: "differ_at a b p"
  shows "get_opcodes a b =
         (if p > 0 then [(Equal, 0, p, 0, p)] else []) @
         [(Replace, p, p + 1, p, p + 1)] @
         (if length a - (p + 1) > 0 then [(Equal, p + 1, length a, p + 1, length a)] else [])"
proof -
  from d have len: "length b = length a" and p: "p < length a" by (auto simp: differ_at_def)
  have blocks: "matching_blocks_in a b 0 (length a) 0 (length a) =
         (if p > 0 then [(0, 0, p)] else []) @
         (if length a - (p + 1) > 0 then [(p + 1, p + 1, length a - (p + 1))] else [])"
    using window_blocks [OF np d, of 0 "length a"] p by simp
  from p obtain q where n: "length a = p + 1 + q"
    by (metis add.commute less_iff_Suc_add Suc_eq_plus1 add.assoc)
  have g: "get_opcodes a b =
      opcodes_from 0 0 (collapse (0, 0, 0) (matching_blocks_in a b 0 (length a) 0 (length a))
                        @ [(length a, length a, 0)])"
    by (simp add: get_opcodes_def get_matching_blocks_def len)
  show ?thesis
    unfolding g blocks unfolding n
    by (cases "p > 0"; cases "q > 0") simp_all
qed

section \<open>A sample with one substituted word\<close>

lemma replaced_pairs_one:
  assumes "p < length ocr_words" and "p < length correct_words"
  shows "replaced_pairs ocr_words correct_words (Replace, p, p + 1, p, p + 1) =
         [(ocr_words ! p, correct_words ! p)]"
  using assms by (simp add: replaced_pairs_def)

lemma replaced_pairs_equal:
  "replaced_pairs ocr_words correct_words (Equal, i1, i2, j1, j2) = []"
  by (simp add: replaced_pairs_def)

text \<open>
  C5, as the code has it. When the OCR words and the corrected words are the same except
  for one word, the wrong word does not occur among the corrected words, the right word
  does not occur among the OCR words, and no corrected word is popular (which is so for
  every text of fewer than 200 words), the extractor yields exactly the one pair.
\<close>

theorem one_substitution_observed:
  assumes "split ocr = xs @ [wrong] @ ys"
      and "split correct = xs @ [right] @ ys"
      and "wrong \<notin> set (split correct)"
      and "right \<notin> set (split ocr)"
      and "\<forall>x. \<not> popular (split correct) x"
  shows "observations ocr correct = [(wrong, right)]"
proof -
  define a where "a = split ocr"
  define b where "b = split correct"
  define p where "p = length xs"
  from assms(1,2) have a: "a = xs @ [wrong] @ ys" and b: "b = xs @ [right] @ ys"
    by (simp_all add: a_def b_def)
  have ap: "a ! p = wrong" and bp: "b ! p = right" by (simp_all add: a b p_def)
  have agree: "a ! t = b ! t" if "t \<noteq> p" for t
    using that by (auto simp: a b p_def nth_append nth_Cons split: nat.splits)
  from assms(3) have wb: "wrong \<notin> set b" unfolding b_def .
  from assms(4) have ra: "right \<notin> set a" unfolding a_def .
  have pa: "p < length a" and pb: "p < length b" and len: "length a = length b"
    by (simp_all add: a b p_def)
  have d: "differ_at a b p"
    unfolding differ_at_def
  proof (intro conjI allI impI)
    show "length a = length b" by (rule len)
    show "p < length a" by (rule pa)
    show "a ! t = b ! t" if "t \<noteq> p" for t using that by (rule agree)
    show "a ! p \<notin> set b" using wb ap by simp
    show "b ! p \<notin> set a" using ra bp by simp
  qed
  from assms(5) have np: "\<forall>x. \<not> popular b x" unfolding b_def .
  from wb have "wrong \<noteq> right" unfolding b by auto
  then have "a \<noteq> b" unfolding a b by simp
  then have ne: "ocr \<noteq> correct" by (auto simp: a_def b_def)
  have "concat (map (replaced_pairs a b) (get_opcodes a b)) = [(wrong, right)]"
    unfolding one_place_opcodes [OF np d]
    using replaced_pairs_one [OF pa pb] ap bp
    by (simp add: replaced_pairs_equal)
  with ne show ?thesis by (simp add: observations_def a_def b_def Let_def)
qed

lemma split_teh: "split ''teh cat sat'' = [] @ [''teh''] @ [''cat'', ''sat'']"
  by code_simp

lemma split_the: "split ''the cat sat'' = [] @ [''the''] @ [''cat'', ''sat'']"
  by code_simp

theorem one_substitution_observed_witness:
  "split ''teh cat sat'' = [] @ [''teh''] @ [''cat'', ''sat''] \<and>
   split ''the cat sat'' = [] @ [''the''] @ [''cat'', ''sat''] \<and>
   ''teh'' \<notin> set (split ''the cat sat'') \<and>
   ''the'' \<notin> set (split ''teh cat sat'') \<and>
   (\<forall>x. \<not> popular (split ''the cat sat'') x) \<and>
   observations ''teh cat sat'' ''the cat sat'' = [(''teh'', ''the'')]"
proof -
  have w: "''teh'' \<notin> set (split ''the cat sat'')" unfolding split_the by simp
  have r: "''the'' \<notin> set (split ''teh cat sat'')" unfolding split_teh by simp
  have np: "\<forall>x. \<not> popular (split ''the cat sat'') x"
    unfolding split_the by (simp add: popular_def)
  from one_substitution_observed [OF split_teh split_the w r np] split_teh split_the w r np
  show ?thesis by blast
qed

text \<open>
  One substituted word, all other words equal and in order, and no observation: in
  \<open>a b a\<close> corrected to \<open>a a a\<close> the matcher pairs the last \<open>a\<close> of the OCR text with
  the middle \<open>a\<close> of the correction, so that \<open>b\<close> is deleted and an \<open>a\<close> inserted.
\<close>

theorem one_substitution_counterexample:
  "split ''a b a'' = [''a'', ''b'', ''a''] \<and> split ''a a a'' = [''a'', ''a'', ''a''] \<and>
   get_opcodes [''a'', ''b'', ''a''] [''a'', ''a'', ''a''] =
     [(Equal, 0, 1, 0, 1), (Delete, 1, 2, 1, 1), (Equal, 2, 3, 1, 2), (Insert, 3, 3, 2, 3)] \<and>
   observations ''a b a'' ''a a a'' = []"
  by code_simp

end
